theory Spec2Isabelle
  imports Main "HOL-Library.Word"
begin

section \<open>The memory pool of \<^verbatim>\<open>src/main.c\<close>\<close>

text \<open>
  The pool hands out runs of equal-size blocks of a caller-supplied region and keeps one
  \<^verbatim>\<open>ssize_t\<close> per block in a side table: \<open>0\<close> for a free block, \<open>+N\<close> for the head of a
  run of \<open>N\<close> blocks, \<open>-1\<close> for a continuation block.

  Machine integers are modelled at the width of an LP64 platform: \<^verbatim>\<open>size_t\<close> and
  \<^verbatim>\<open>ssize_t\<close> are 64-bit words, with \<open>+\<close>, \<open>-\<close>, \<open>*\<close> wrapping, \<open>div\<close>, \<open>mod\<close>, \<open><\<close> and
  \<open>\<le>\<close> unsigned, and \<open>sint\<close> reading a table entry as signed. An address is a 64-bit word
  too, \<open>0\<close> being \<^verbatim>\<open>NULL\<close>; the pointer difference of \<^verbatim>\<open>pool_free\<close> is the wrapping
  difference of the two addresses.
\<close>

type_synonym size_t = "64 word"
type_synonym ssize_t = "64 word"
type_synonym addr = "64 word"

record mem_pool =
  memory :: addr
  block_size :: size_t
  num_blocks :: size_t
  free_blocks :: size_t
  allocation_sizes :: "ssize_t list"

subsection \<open>Array accesses\<close>

text \<open>
  The table is a list whose length is the number of entries the storage holds. An access
  outside it is undefined behaviour in C: every function below that touches the table
  returns an \<open>option\<close>, and \<open>None\<close> stands for "no defined result" (an access out of
  bounds, a division by zero, or a loop that does not end).
\<close>

definition rd :: "ssize_t list \<Rightarrow> size_t \<Rightarrow> ssize_t option" where
  "rd a i = (if unat i < length a then Some (a ! unat i) else None)"

definition wr :: "ssize_t list \<Rightarrow> size_t \<Rightarrow> ssize_t \<Rightarrow> ssize_t list option" where
  "wr a i v = (if unat i < length a then Some (a[unat i := v]) else None)"

text \<open>
  Three loops of the source have the shape
  \<^verbatim>\<open>for (k = k0; k < n; k++) a[base + k] = v;\<close>
  (lines 44-46 with \<open>base = 0\<close>, \<open>v = 0\<close>, \<open>k0 = 0\<close>; lines 84-86 with \<open>base = i\<close>,
  \<open>v = -1\<close>, \<open>k0 = 1\<close>; lines 130-133 with \<open>base = block_index\<close>, \<open>v = 0\<close>, \<open>k0 = 0\<close>).
  \<open>store_loop a base n v k\<close> runs it from counter \<open>k\<close>.
\<close>

function store_loop :: "ssize_t list \<Rightarrow> size_t \<Rightarrow> size_t \<Rightarrow> ssize_t \<Rightarrow> size_t \<Rightarrow> ssize_t list option" where
  "store_loop a base n v k =
     (if k < n then
        (case wr a (base + k) v of
           None \<Rightarrow> None
         | Some a' \<Rightarrow> store_loop a' base n v (k + 1))
      else Some a)"
  by pat_completeness auto
termination
proof (relation "measure (\<lambda>(a, base, n, v, k). unat n - unat k)")
  show "wf (measure (\<lambda>(a, base, n, v, k). unat n - unat k))"
    by simp
next
  fix a :: "ssize_t list" and base n v k :: "64 word" and a' :: "ssize_t list"
  assume "k < n"
  then have "unat (k + 1) = Suc (unat k)" and "unat k < unat n"
    by unat_arith+
  then show "((a', base, n, v, k + 1), (a, base, n, v, k))
      \<in> measure (\<lambda>(a, base, n, v, k). unat n - unat k)"
    by simp
qed

declare store_loop.simps [simp del]

text \<open>
  Lines 72-77: \<^verbatim>\<open>for (j = 0; j < n; j++) if (a[i + j] != 0) { can_allocate = false; break; }\<close>,
  run from counter \<open>j\<close>; the result is the final value of \<^verbatim>\<open>can_allocate\<close>.
\<close>

function check_loop :: "ssize_t list \<Rightarrow> size_t \<Rightarrow> size_t \<Rightarrow> size_t \<Rightarrow> bool option" where
  "check_loop a i n j =
     (if j < n then
        (case rd a (i + j) of
           None \<Rightarrow> None
         | Some v \<Rightarrow> if v \<noteq> 0 then Some False else check_loop a i n (j + 1))
      else Some True)"
  by pat_completeness auto
termination
proof (relation "measure (\<lambda>(a, i, n, j). unat n - unat j)")
  show "wf (measure (\<lambda>(a, i, n, j). unat n - unat j))"
    by simp
next
  fix a :: "ssize_t list" and i n j v :: "64 word"
  assume "j < n"
  then have "unat (j + 1) = Suc (unat j)" and "unat j < unat n"
    by unat_arith+
  then show "((a, i, n, j + 1), (a, i, n, j)) \<in> measure (\<lambda>(a, i, n, j). unat n - unat j)"
    by simp
qed

declare check_loop.simps [simp del]

subsection \<open>\<^verbatim>\<open>pool_init\<close> (lines 20-49)\<close>

text \<open>
  \<^verbatim>\<open>malloc\<close> belongs to the environment. \<open>struct_ok\<close> and \<open>table_ok\<close> say whether the first
  and the second call return storage. The second call asks for
  \<^verbatim>\<open>num_blocks * sizeof(ssize_t)\<close> bytes, a product that wraps, so the storage holds
  \<open>unat (nb * 8) div 8\<close> entries; their content is arbitrary (\<open>junk\<close>) until the loop of
  lines 44-46 has written it. The result is \<open>Some None\<close> for \<^verbatim>\<open>return NULL\<close>,
  \<open>Some (Some pool)\<close> for \<^verbatim>\<open>return pool\<close>, and \<open>None\<close> when the loop writes past the
  storage it was given.
\<close>

definition pool_init ::
  "bool \<Rightarrow> bool \<Rightarrow> (nat \<Rightarrow> ssize_t) \<Rightarrow> addr \<Rightarrow> size_t \<Rightarrow> size_t \<Rightarrow> mem_pool option option" where
  "pool_init struct_ok table_ok junk mem bs nb =
     (if mem = 0 \<or> bs = 0 \<or> nb = 0 then Some None
      else if \<not> struct_ok then Some None
      else if \<not> table_ok then Some None
      else
        (case store_loop (map junk [0 ..< unat (nb * 8) div 8]) 0 nb 0 0 of
           None \<Rightarrow> None
         | Some a \<Rightarrow>
             Some (Some \<lparr>memory = mem, block_size = bs, num_blocks = nb,
                         free_blocks = nb, allocation_sizes = a\<rparr>)))"

subsection \<open>\<^verbatim>\<open>pool_alloc\<close> (lines 52-98)\<close>

text \<open>Line 62, in \<^verbatim>\<open>size_t\<close> arithmetic.\<close>

definition num_blocks_needed :: "mem_pool \<Rightarrow> size_t \<Rightarrow> size_t" where
  "num_blocks_needed pool sz = (sz + block_size pool - 1) div block_size pool"

datatype 'a step = Continue | Return 'a

text \<open>
  One iteration of the search loop (lines 66-93) at index \<open>i\<close>: it either goes on to the
  next index or returns the address of the run together with the updated pool.
\<close>

definition alloc_step :: "mem_pool \<Rightarrow> size_t \<Rightarrow> size_t \<Rightarrow> (addr \<times> mem_pool) step option" where
  "alloc_step pool n i =
     (case rd (allocation_sizes pool) i of
        None \<Rightarrow> None
      | Some v \<Rightarrow>
          if v \<noteq> 0 then Some Continue
          else
            (case check_loop (allocation_sizes pool) i n 0 of
               None \<Rightarrow> None
             | Some False \<Rightarrow> Some Continue
             | Some True \<Rightarrow>
                 (case wr (allocation_sizes pool) i n of
                    None \<Rightarrow> None
                  | Some a1 \<Rightarrow>
                      (case store_loop a1 i n (- 1) 1 of
                         None \<Rightarrow> None
                       | Some a2 \<Rightarrow>
                           Some (Return (memory pool + i * block_size pool,
                                         pool\<lparr>allocation_sizes := a2,
                                              free_blocks := free_blocks pool - n\<rparr>))))))"

text \<open>
  The search loop \<^verbatim>\<open>for (i = 0; i + n <= pool->num_blocks; i++)\<close> from index \<open>i\<close>. The sum
  \<open>i + n\<close> wraps, so for some pools the loop need not end; \<open>None\<close> covers that.
\<close>

partial_function (option) alloc_loop :: "mem_pool \<Rightarrow> size_t \<Rightarrow> size_t \<Rightarrow> (addr \<times> mem_pool) option" where
  "alloc_loop pool n i =
     (if i + n \<le> num_blocks pool then
        (case alloc_step pool n i of
           None \<Rightarrow> None
         | Some Continue \<Rightarrow> alloc_loop pool n (i + 1)
         | Some (Return r) \<Rightarrow> Some r)
      else Some (0, pool))"

declare alloc_loop.simps [code]

text \<open>
  The pool argument is a pointer: \<open>None\<close> is \<^verbatim>\<open>NULL\<close>. The function returns the address
  (\<open>0\<close> for \<^verbatim>\<open>NULL\<close>) and the pool as the call leaves it. A zero \<^verbatim>\<open>block_size\<close> never
  reaches the division of line 62: then \<open>block_size * free_blocks = 0 < size\<close> and line 58
  returns. The requested size is written \<open>sz\<close>.
\<close>

fun pool_alloc :: "mem_pool option \<Rightarrow> size_t \<Rightarrow> (addr \<times> mem_pool option) option" where
  "pool_alloc None sz = Some (0, None)"
| "pool_alloc (Some pool) sz =
     (if sz = 0 then Some (0, Some pool)
      else if sz > block_size pool * free_blocks pool then Some (0, Some pool)
      else
        (case alloc_loop pool (num_blocks_needed pool sz) 0 of
           None \<Rightarrow> None
         | Some (p, pool') \<Rightarrow> Some (p, Some pool')))"

subsection \<open>\<^verbatim>\<open>pool_free\<close> (lines 101-137)\<close>

text \<open>
  The table entry is an \<^verbatim>\<open>ssize_t\<close>: line 119 compares it as a signed number, lines 126,
  130 and 136 use it converted to \<^verbatim>\<open>size_t\<close>, which leaves the word as it is.
\<close>

fun pool_free :: "mem_pool option \<Rightarrow> addr \<Rightarrow> mem_pool option option" where
  "pool_free None ptr = Some None"
| "pool_free (Some pool) ptr =
     (if ptr = 0 then Some (Some pool)
      else
        (let offset = ptr - memory pool in
         if block_size pool = 0 then None
         else if offset mod block_size pool \<noteq> 0 then Some (Some pool)
         else
           (let block_index = offset div block_size pool in
            if block_index \<ge> num_blocks pool then Some (Some pool)
            else
              (case rd (allocation_sizes pool) block_index of
                 None \<Rightarrow> None
               | Some num_blocks_alloc \<Rightarrow>
                   if sint num_blocks_alloc \<le> 0 then Some (Some pool)
                   else if block_index + num_blocks_alloc > num_blocks pool then Some (Some pool)
                   else
                     (case store_loop (allocation_sizes pool) block_index num_blocks_alloc 0 0 of
                        None \<Rightarrow> None
                      | Some a \<Rightarrow>
                          Some (Some (pool\<lparr>allocation_sizes := a,
                                           free_blocks := free_blocks pool + num_blocks_alloc\<rparr>)))))))"

subsection \<open>Pool states\<close>

text \<open>
  The states a caller can bring about: what a successful \<^verbatim>\<open>pool_init\<close> returns, and what
  \<^verbatim>\<open>pool_alloc\<close> with any size and \<^verbatim>\<open>pool_free\<close> with any address leave behind.
\<close>

inductive reachable :: "mem_pool \<Rightarrow> bool" where
  reach_init: "pool_init struct_ok table_ok junk mem bs nb = Some (Some p) \<Longrightarrow> reachable p"
| reach_alloc: "reachable p \<Longrightarrow> pool_alloc (Some p) sz = Some (ptr, Some p') \<Longrightarrow> reachable p'"
| reach_free: "reachable p \<Longrightarrow> pool_free (Some p) ptr = Some (Some p') \<Longrightarrow> reachable p'"

text \<open>
  \<open>pool_shape\<close>: the fields \<^verbatim>\<open>pool_init\<close> has checked and the table it has obtained, one
  entry per block, in storage whose byte count \<^verbatim>\<open>num_blocks * sizeof(ssize_t)\<close> did not
  wrap. Nothing is said about the entries.
\<close>

definition pool_shape :: "mem_pool \<Rightarrow> bool" where
  "pool_shape p \<longleftrightarrow>
     memory p \<noteq> 0 \<and> block_size p \<noteq> 0 \<and> num_blocks p \<noteq> 0 \<and>
     length (allocation_sizes p) = unat (num_blocks p) \<and>
     unat (num_blocks p) * 8 < 2 ^ 64"

text \<open>
  \<open>region_fits\<close>: the precondition of creation that the code cannot check, namely that
  \<^verbatim>\<open>memory\<close> points to \<open>block_size * num_blocks\<close> bytes; in particular these bytes lie
  within the address space.
\<close>

definition region_fits :: "mem_pool \<Rightarrow> bool" where
  "region_fits p \<longleftrightarrow>
     unat (memory p) + unat (block_size p) * unat (num_blocks p) \<le> 2 ^ 64"

text \<open>
  \<open>run_free a n i\<close>: the \<open>n\<close> entries from index \<open>i\<close> on exist and are all \<open>0\<close>.
\<close>

definition run_free :: "ssize_t list \<Rightarrow> nat \<Rightarrow> nat \<Rightarrow> bool" where
  "run_free a n i \<longleftrightarrow> i + n \<le> length a \<and> (\<forall>j \<in> {i ..< i + n}. a ! j = 0)"

text \<open>
  \<open>table_inv\<close>: every entry is \<open>0\<close>, \<open>-1\<close> or positive, and a positive entry \<open>N\<close> at
  index \<open>i\<close> is followed by \<open>N - 1\<close> entries \<open>-1\<close> inside the table.
\<close>

definition table_inv :: "ssize_t list \<Rightarrow> bool" where
  "table_inv a \<longleftrightarrow>
     (\<forall>i \<in> {..< length a}.
        (a ! i = 0 \<or> a ! i = - 1 \<or> 0 < sint (a ! i)) \<and>
        (0 < sint (a ! i) \<longrightarrow>
           i + nat (sint (a ! i)) \<le> length a \<and>
           (\<forall>j \<in> {i + 1 ..< i + nat (sint (a ! i))}. a ! j = - 1)))"

text \<open>
  \<open>pool_inv\<close>: the shape, the table invariant, and \<^verbatim>\<open>free_blocks\<close> counting the entries that
  are \<open>0\<close>. \<open>pool_valid\<close> adds the precondition on the region.
\<close>

definition pool_inv :: "mem_pool \<Rightarrow> bool" where
  "pool_inv p \<longleftrightarrow>
     pool_shape p \<and> table_inv (allocation_sizes p) \<and>
     unat (free_blocks p) = count_list (allocation_sizes p) 0"

definition pool_valid :: "mem_pool \<Rightarrow> bool" where
  "pool_valid p \<longleftrightarrow> pool_inv p \<and> region_fits p"

text \<open>
  \<open>fill lo hi v a\<close> is \<open>a\<close> with the entries at the indices \<open>lo \<le> j < hi\<close> replaced by
  \<open>v\<close>: what the store loop leaves behind.
\<close>

definition fill :: "nat \<Rightarrow> nat \<Rightarrow> ssize_t \<Rightarrow> ssize_t list \<Rightarrow> ssize_t list" where
  "fill lo hi v a = map (\<lambda>j. if lo \<le> j \<and> j < hi then v else a ! j) [0 ..< length a]"

text \<open>
  \<open>marked pool n i\<close>: the address and the pool that lines 82-92 produce at index \<open>i\<close> for a
  run of \<open>n\<close> blocks, the table written with \<open>fill\<close>.
\<close>

definition marked :: "mem_pool \<Rightarrow> size_t \<Rightarrow> nat \<Rightarrow> addr \<times> mem_pool" where
  "marked pool n i =
     (memory pool + of_nat i * block_size pool,
      pool\<lparr>allocation_sizes :=
             fill (Suc i) (i + unat n) (- 1) ((allocation_sizes pool)[i := n]),
           free_blocks := free_blocks pool - n\<rparr>)"

subsection \<open>Example pools\<close>

text \<open>
  Four blocks of 16 bytes at address 4096, blocks 0 and 1 allocated as one run.
\<close>

definition pool_a :: mem_pool where
  "pool_a = \<lparr>memory = 4096, block_size = 16, num_blocks = 4, free_blocks = 2,
              allocation_sizes = [2, - 1, 0, 0]\<rparr>"

text \<open>The same pool with every block free.\<close>

definition pool_fresh :: mem_pool where
  "pool_fresh = \<lparr>memory = 4096, block_size = 16, num_blocks = 4, free_blocks = 4,
              allocation_sizes = [0, 0, 0, 0]\<rparr>"

text \<open>
  A table that no sequence of calls produces: the head at index 3 records a run of three
  blocks, which would end past the table.
\<close>

definition pool_b :: mem_pool where
  "pool_b = \<lparr>memory = 4096, block_size = 16, num_blocks = 4, free_blocks = 1,
              allocation_sizes = [2, - 1, 0, 3]\<rparr>"

text \<open>A fragmented pool: two free blocks, not adjacent.\<close>

definition pool_c :: mem_pool where
  "pool_c = \<lparr>memory = 4096, block_size = 16, num_blocks = 4, free_blocks = 2,
              allocation_sizes = [0, 1, 0, 1]\<rparr>"

text \<open>
  Three blocks, the middle one allocated: what is left after three allocations of one
  block each and the release of the first and the third.
\<close>

definition pool_frag :: mem_pool where
  "pool_frag = \<lparr>memory = 4096, block_size = 16, num_blocks = 3, free_blocks = 2,
                 allocation_sizes = [0, 1, 0]\<rparr>"

text \<open>One block of \<open>2^63 + 1\<close> bytes.\<close>

definition pool_huge :: mem_pool where
  "pool_huge = \<lparr>memory = 4096, block_size = 9223372036854775809, num_blocks = 1,
                 free_blocks = 1, allocation_sizes = [0]\<rparr>"

text \<open>
  A pool whose first free block is too short a run for two blocks, and the same pool after
  two blocks have been allocated.
\<close>

definition pool_d :: mem_pool where
  "pool_d = \<lparr>memory = 4096, block_size = 16, num_blocks = 4, free_blocks = 3,
              allocation_sizes = [0, 1, 0, 0]\<rparr>"

definition pool_d' :: mem_pool where
  "pool_d' = \<lparr>memory = 4096, block_size = 16, num_blocks = 4, free_blocks = 1,
              allocation_sizes = [0, 1, 2, - 1]\<rparr>"

section \<open>Auxiliary facts\<close>

subsection \<open>Words\<close>

lemma unat_inc: "k < n \<Longrightarrow> unat (k + 1) = Suc (unat k)" for k n :: "64 word"
  by unat_arith

lemma unat_add_exact: "unat x + unat y < 2 ^ 64 \<Longrightarrow> unat (x + y) = unat x + unat y" for x y :: "64 word"
  using unat_add_lem [of x y] by simp

lemma unat_mult_exact: "unat x * unat y < 2 ^ 64 \<Longrightarrow> unat (x * y) = unat x * unat y" for x y :: "64 word"
  using unat_mult_lem [of x y] by simp

lemma unat_mult_le: "unat (x * y) \<le> unat x * unat y" for x y :: "64 word"
  by (simp add: unat_word_ariths)

lemma unat_bound: "unat x < 2 ^ 64" for x :: "64 word"
  using unsigned_less [of x, where 'a = nat] by simp

subsection \<open>fill\<close>

lemma length_fill [simp]: "length (fill lo hi v a) = length a"
  by (simp add: fill_def)

lemma nth_fill: "j < length a \<Longrightarrow> fill lo hi v a ! j = (if lo \<le> j \<and> j < hi then v else a ! j)"
  by (simp add: fill_def)

lemma fill_empty: "hi \<le> lo \<Longrightarrow> fill lo hi v a = a"
  by (rule nth_equalityI) (auto simp: nth_fill)

lemma fill_step: "lo < hi \<Longrightarrow> fill (Suc lo) hi v (a[lo := v]) = fill lo hi v a"
  by (rule nth_equalityI) (auto simp: nth_fill nth_list_update)

lemma fill_append:
  "lo \<le> hi \<Longrightarrow> hi \<le> length a \<Longrightarrow> fill lo hi v a = take lo a @ replicate (hi - lo) v @ drop hi a"
  by (rule nth_equalityI) (auto simp: nth_fill nth_append)

subsection \<open>The store loop\<close>

lemma store_loop_eq:
  "unat base + unat n < 2 ^ 64 \<Longrightarrow>
   store_loop a base n v k =
     (if k < n \<longrightarrow> unat base + unat n \<le> length a
      then Some (fill (unat base + unat k) (unat base + unat n) v a) else None)"
proof (induction a base n v k rule: store_loop.induct)
  case (1 a base n v k)
  show ?case
  proof (cases "k < n")
    case False
    then have "unat n \<le> unat k" by (simp add: word_less_nat_alt)
    with False show ?thesis
      by (subst store_loop.simps) (simp add: fill_empty)
  next
    case True
    then have kn: "unat k < unat n" and k1: "unat (k + 1) = Suc (unat k)"
      by (simp_all add: word_less_nat_alt unat_inc)
    from kn "1.prems" have bk: "unat (base + k) = unat base + unat k"
      by (simp add: unat_add_exact)
    show ?thesis
    proof (cases "unat base + unat k < length a")
      case False
      with True bk kn show ?thesis
        by (subst store_loop.simps) (simp add: wr_def)
    next
      case inr: True
      let ?a' = "a[unat base + unat k := v]"
      have w: "wr a (base + k) v = Some ?a'"
        using inr bk by (simp add: wr_def)
      have "store_loop a base n v k = store_loop ?a' base n v (k + 1)"
        using True w by (subst store_loop.simps) simp
      also have "\<dots> = (if k + 1 < n \<longrightarrow> unat base + unat n \<le> length ?a'
          then Some (fill (unat base + unat (k + 1)) (unat base + unat n) v ?a') else None)"
        using "1.IH" [OF True w "1.prems"] .
      also have "\<dots> = (if unat base + unat n \<le> length a
          then Some (fill (unat base + unat k) (unat base + unat n) v a) else None)"
      proof (cases "k + 1 < n")
        case True
        then show ?thesis using kn k1 by (simp add: fill_step)
      next
        case False
        then have "unat n = Suc (unat k)"
          using kn k1 by (simp add: word_less_nat_alt)
        then show ?thesis using inr k1 kn by (simp add: fill_step)
      qed
      finally show ?thesis using True by simp
    qed
  qed
qed

subsection \<open>The check loop\<close>

lemma check_loop_eq:
  "unat i + unat n \<le> length a \<Longrightarrow> unat i + unat n < 2 ^ 64 \<Longrightarrow>
   check_loop a i n j = Some (\<forall>m \<in> {unat i + unat j ..< unat i + unat n}. a ! m = 0)"
proof (induction a i n j rule: check_loop.induct)
  case (1 a i n j)
  show ?case
  proof (cases "j < n")
    case False
    then have "unat n \<le> unat j" by (simp add: word_less_nat_alt)
    with False show ?thesis
      by (subst check_loop.simps) simp
  next
    case True
    then have jn: "unat j < unat n" and j1: "unat (j + 1) = Suc (unat j)"
      by (simp_all add: word_less_nat_alt unat_inc)
    from jn "1.prems" have ij: "unat (i + j) = unat i + unat j"
      by (simp add: unat_add_exact)
    have r: "rd a (i + j) = Some (a ! (unat i + unat j))"
      using ij jn "1.prems" by (simp add: rd_def)
    show ?thesis
    proof (cases "a ! (unat i + unat j) = 0")
      case False
      then have "\<not> (\<forall>m \<in> {unat i + unat j ..< unat i + unat n}. a ! m = 0)"
        using jn by auto
      with True r False show ?thesis
        by (subst check_loop.simps) simp
    next
      case z: True
      have "check_loop a i n j = check_loop a i n (j + 1)"
        using True r z by (subst check_loop.simps) simp
      also have "\<dots> = Some (\<forall>m \<in> {unat i + unat (j + 1) ..< unat i + unat n}. a ! m = 0)"
        using "1.IH" [OF True r _ "1.prems"] z by simp
      also have "(\<forall>m \<in> {unat i + unat (j + 1) ..< unat i + unat n}. a ! m = 0)
          \<longleftrightarrow> (\<forall>m \<in> {unat i + unat j ..< unat i + unat n}. a ! m = 0)"
      proof -
        have "{unat i + unat j ..< unat i + unat n}
            = insert (unat i + unat j) {unat i + unat (j + 1) ..< unat i + unat n}"
          using jn j1 by auto
        then show ?thesis using z by simp
      qed
      finally show ?thesis .
    qed
  qed
qed

lemma check_loop_True:
  "check_loop a i n j = Some True \<Longrightarrow> unat i + unat j \<le> length a \<Longrightarrow> length a < 2 ^ 64 \<Longrightarrow>
   j \<le> n \<Longrightarrow>
   unat i + unat n \<le> length a \<and> (\<forall>m \<in> {unat i + unat j ..< unat i + unat n}. a ! m = 0)"
proof (induction a i n j rule: check_loop.induct)
  case (1 a i n j)
  show ?case
  proof (cases "j < n")
    case False
    with "1.prems" have "j = n" by simp
    with "1.prems" show ?thesis by simp
  next
    case True
    then have jn: "unat j < unat n" and j1: "unat (j + 1) = Suc (unat j)"
      by (simp_all add: word_less_nat_alt unat_inc)
    from "1.prems" have ij: "unat (i + j) = unat i + unat j"
      by (simp add: unat_add_exact)
    from "1.prems"(1) True obtain v where r: "rd a (i + j) = Some v"
      and rest: "(if v \<noteq> 0 then Some False else check_loop a i n (j + 1)) = Some True"
      by (subst (asm) check_loop.simps) (auto split: option.splits)
    from r ij have inr: "unat i + unat j < length a" and v: "v = a ! (unat i + unat j)"
      by (auto simp: rd_def split: if_splits)
    from rest have z: "v = 0" and c: "check_loop a i n (j + 1) = Some True"
      by (auto split: if_splits)
    have "j + 1 \<le> n" using True by (rule inc_le)
    with "1.IH" [OF True r _ c] z inr j1 "1.prems"
    have ih: "unat i + unat n \<le> length a"
      "\<forall>m \<in> {unat i + unat (j + 1) ..< unat i + unat n}. a ! m = 0"
      by simp_all
    have "{unat i + unat j ..< unat i + unat n}
        = insert (unat i + unat j) {unat i + unat (j + 1) ..< unat i + unat n}"
      using jn j1 by auto
    with ih z v show ?thesis by simp
  qed
qed

subsection \<open>One iteration of the search\<close>

lemma alloc_step_eq:
  assumes "unat i + unat n \<le> length (allocation_sizes pool)"
    and "unat i < length (allocation_sizes pool)"
    and "length (allocation_sizes pool) < 2 ^ 64"
  shows "alloc_step pool n i =
     (if allocation_sizes pool ! unat i = 0 \<and> run_free (allocation_sizes pool) (unat n) (unat i)
      then Some (Return (marked pool n (unat i))) else Some Continue)"
proof -
  let ?a = "allocation_sizes pool"
  have r: "rd ?a i = Some (?a ! unat i)"
    using assms by (simp add: rd_def)
  have c: "check_loop ?a i n 0 = Some (run_free ?a (unat n) (unat i))"
    using assms check_loop_eq [of i n ?a 0] by (simp add: run_free_def)
  have w: "wr ?a i n = Some (?a[unat i := n])"
    using assms by (simp add: wr_def)
  have s: "store_loop (?a[unat i := n]) i n (- 1) 1
      = Some (fill (Suc (unat i)) (unat i + unat n) (- 1) (?a[unat i := n]))"
  proof (cases "1 < n")
    case True
    with assms show ?thesis
      by (simp add: store_loop_eq)
  next
    case False
    then have "unat n \<le> 1" by (simp add: word_less_nat_alt)
    with False assms show ?thesis
      by (simp add: store_loop_eq fill_empty)
  qed
  show ?thesis
    by (simp add: alloc_step_def r c w s marked_def)
qed

lemma alloc_step_Return:
  assumes "alloc_step pool n i = Some (Return r)"
    and "length (allocation_sizes pool) < 2 ^ 64"
  shows "unat i < length (allocation_sizes pool) \<and> allocation_sizes pool ! unat i = 0 \<and>
     run_free (allocation_sizes pool) (unat n) (unat i) \<and> r = marked pool n (unat i)"
proof -
  let ?a = "allocation_sizes pool"
  from assms(1) obtain v where r: "rd ?a i = Some v"
    by (auto simp: alloc_step_def split: option.splits)
  then have inr: "unat i < length ?a" and v: "v = ?a ! unat i"
    by (auto simp: rd_def split: if_splits)
  from assms(1) r have z: "v = 0" and c: "check_loop ?a i n 0 = Some True"
    by (auto simp: alloc_step_def split: option.splits if_splits bool.splits)
  from check_loop_True [OF c] inr assms(2)
  have run: "unat i + unat n \<le> length ?a" "\<forall>m \<in> {unat i ..< unat i + unat n}. ?a ! m = 0"
    by simp_all
  then have rf: "run_free ?a (unat n) (unat i)"
    by (simp add: run_free_def)
  from alloc_step_eq [OF run(1) inr assms(2)] assms(1) z v rf
  have "r = marked pool n (unat i)" by simp
  with inr z v rf show ?thesis by simp
qed

subsection \<open>The search loop\<close>

lemma alloc_loop_cases:
  assumes "alloc_loop pool n i = Some r"
    and "length (allocation_sizes pool) < 2 ^ 64"
  shows "r = (0, pool) \<or>
     (\<exists>k. k < length (allocation_sizes pool) \<and> allocation_sizes pool ! k = 0 \<and>
          run_free (allocation_sizes pool) (unat n) k \<and> r = marked pool n k)"
proof -
  define P where "P = (\<lambda>(pool :: mem_pool) (n :: size_t) (i :: size_t) (r :: addr \<times> mem_pool).
     length (allocation_sizes pool) < 2 ^ 64 \<longrightarrow>
     r = (0, pool) \<or>
     (\<exists>k. k < length (allocation_sizes pool) \<and> allocation_sizes pool ! k = 0 \<and>
          run_free (allocation_sizes pool) (unat n) k \<and> r = marked pool n k))"
  have "P pool n i r"
  proof (rule alloc_loop.raw_induct [OF _ assms(1)])
    fix f :: "mem_pool \<Rightarrow> size_t \<Rightarrow> size_t \<Rightarrow> (addr \<times> mem_pool) option"
      and pool n i r
    assume IH: "\<And>pool n i r. f pool n i = Some r \<Longrightarrow> P pool n i r"
      and eq: "(if i + n \<le> num_blocks pool
          then case alloc_step pool n i of None \<Rightarrow> None
            | Some Continue \<Rightarrow> f pool n (i + 1)
            | Some (Return r) \<Rightarrow> Some r
          else Some (0, pool)) = Some r"
    show "P pool n i r"
    proof (cases "i + n \<le> num_blocks pool")
      case False
      with eq show ?thesis by (auto simp: P_def)
    next
      case True
      show ?thesis
      proof (cases "alloc_step pool n i")
        case None
        with True eq show ?thesis by simp
      next
        case (Some s)
        show ?thesis
        proof (cases s)
          case Continue
          with Some True eq have "f pool n (i + 1) = Some r" by simp
          then have "P pool n (i + 1) r" by (rule IH)
          then show ?thesis by (simp add: P_def)
        next
          case (Return r')
          with Some True eq have "r' = r" by simp
          with Return Some have st: "alloc_step pool n i = Some (Return r)" by simp
          show ?thesis
            unfolding P_def
          proof
            assume "length (allocation_sizes pool) < 2 ^ 64"
            from alloc_step_Return [OF st this]
            show "r = (0, pool) \<or>
              (\<exists>k. k < length (allocation_sizes pool) \<and> allocation_sizes pool ! k = 0 \<and>
                run_free (allocation_sizes pool) (unat n) k \<and> r = marked pool n k)"
              by blast
          qed
        qed
      qed
    qed
  qed
  with assms(2) show ?thesis by (simp add: P_def)
qed

lemma alloc_loop_found:
  assumes len: "length (allocation_sizes pool) = unat (num_blocks pool)"
    and fit: "k < length (allocation_sizes pool)" "allocation_sizes pool ! k = 0"
      "run_free (allocation_sizes pool) (unat n) k"
    and first: "\<forall>k' \<in> {unat i ..< k}.
        \<not> (allocation_sizes pool ! k' = 0 \<and> run_free (allocation_sizes pool) (unat n) k')"
    and le: "unat i \<le> k"
  shows "alloc_loop pool n i = Some (marked pool n k)"
  using first le
proof (induction "k - unat i" arbitrary: i)
  case 0
  then have ik: "unat i = k" by simp
  let ?a = "allocation_sizes pool"
  have b: "length ?a < 2 ^ 64"
    using len unat_bound [of "num_blocks pool"] by simp
  have run: "unat i + unat n \<le> length ?a"
    using fit ik by (simp add: run_free_def)
  then have "unat (i + n) = unat i + unat n"
    using b by (simp add: unat_add_exact)
  then have cond: "i + n \<le> num_blocks pool"
    using run len by (simp add: word_le_nat_alt)
  have "alloc_step pool n i = Some (Return (marked pool n k))"
    using alloc_step_eq [OF run _ b, of] fit ik by simp
  with cond show ?case
    by (subst alloc_loop.simps) simp
next
  case (Suc d)
  then have lt: "unat i < k" by simp
  let ?a = "allocation_sizes pool"
  have b: "length ?a < 2 ^ 64"
    using len unat_bound [of "num_blocks pool"] by simp
  have run: "unat i + unat n \<le> length ?a"
    using fit lt by (simp add: run_free_def)
  then have "unat (i + n) = unat i + unat n"
    using b by (simp add: unat_add_exact)
  then have cond: "i + n \<le> num_blocks pool"
    using run len by (simp add: word_le_nat_alt)
  have inr: "unat i < length ?a" using lt fit by simp
  have "\<not> (?a ! unat i = 0 \<and> run_free ?a (unat n) (unat i))"
    using Suc.prems(1) lt by simp
  then have st: "alloc_step pool n i = Some Continue"
    using alloc_step_eq [OF run inr b] by simp
  have "unat i + unat (1 :: 64 word) < 2 ^ 64"
    using inr b by simp
  then have i1: "unat (i + 1) = Suc (unat i)"
    using unat_add_exact [of i 1] by simp
  have "alloc_loop pool n (i + 1) = Some (marked pool n k)"
  proof (rule Suc.hyps(1))
    show "d = k - unat (i + 1)" using Suc.hyps(2) i1 by simp
    show "\<forall>k' \<in> {unat (i + 1) ..< k}. \<not> (?a ! k' = 0 \<and> run_free ?a (unat n) k')"
      using Suc.prems(1) i1 by simp
    show "unat (i + 1) \<le> k" using lt i1 by simp
  qed
  with cond st show ?case
    by (subst alloc_loop.simps) simp
qed

lemma alloc_loop_not_found:
  assumes len: "length (allocation_sizes pool) = unat (num_blocks pool)"
    and small: "length (allocation_sizes pool) < 2 ^ 63"
    and n: "n \<noteq> 0" "unat n \<le> length (allocation_sizes pool)"
    and none: "\<forall>k \<ge> unat i. \<not> run_free (allocation_sizes pool) (unat n) k"
    and le: "unat i \<le> length (allocation_sizes pool)"
  shows "alloc_loop pool n i = Some (0, pool)"
  using none le
proof (induction "length (allocation_sizes pool) - unat i" arbitrary: i)
  case 0
  let ?a = "allocation_sizes pool"
  from 0 have ik: "unat i = unat (num_blocks pool)" using len by simp
  have "unat i + unat n < 2 ^ 64" using n small 0 by simp
  then have "unat (i + n) = unat i + unat n" by (rule unat_add_exact)
  moreover have "0 < unat n" using n by (simp add: unat_gt_0)
  ultimately have "\<not> i + n \<le> num_blocks pool"
    using ik by (simp add: word_le_nat_alt)
  then show ?case
    by (subst alloc_loop.simps) simp
next
  case (Suc d)
  let ?a = "allocation_sizes pool"
  have b: "length ?a < 2 ^ 64"
    using small by simp
  from Suc have inr: "unat i < length ?a" by simp
  have "unat i + unat (1 :: 64 word) < 2 ^ 64"
    using inr b by simp
  then have i1: "unat (i + 1) = Suc (unat i)"
    using unat_add_exact [of i 1] by simp
  have rec: "alloc_loop pool n (i + 1) = Some (0, pool)"
  proof (rule Suc.hyps(1))
    show "d = length ?a - unat (i + 1)" using Suc.hyps(2) i1 by simp
    show "\<forall>k \<ge> unat (i + 1). \<not> run_free ?a (unat n) k"
      using Suc.prems(1) i1 by simp
    show "unat (i + 1) \<le> length ?a" using inr i1 by simp
  qed
  show ?case
  proof (cases "i + n \<le> num_blocks pool")
    case False
    then show ?thesis by (subst alloc_loop.simps) simp
  next
    case True
    have "unat i + unat n < 2 ^ 64" using n small inr by simp
    then have "unat (i + n) = unat i + unat n" by (rule unat_add_exact)
    with True have run: "unat i + unat n \<le> length ?a"
      using len by (simp add: word_le_nat_alt)
    have "\<not> run_free ?a (unat n) (unat i)" using Suc.prems(1) by simp
    then have "alloc_step pool n i = Some Continue"
      using alloc_step_eq [OF run inr b] by simp
    with True rec show ?thesis
      by (subst alloc_loop.simps) simp
  qed
qed

subsection \<open>Signed entries\<close>

lemma sint_pos_unat:
  "0 < sint x \<Longrightarrow> int (unat x) = sint x \<and> unat x < 2 ^ 63 \<and> x \<noteq> 0" for x :: "64 word"
proof -
  assume p: "0 < sint x"
  have lt: "sint x < 2 ^ 63" using sint_lt [of x] by simp
  have "uint x = take_bit 64 (sint x)" using uint_sint [of x] by simp
  also have "\<dots> = sint x"
    using p lt by (simp add: take_bit_int_eq_self)
  finally have u: "uint x = sint x" .
  then have "int (unat x) = sint x" by simp
  moreover have "unat x < 2 ^ 63"
  proof -
    from u lt have "int (unat x) < int (2 ^ 63)" by simp
    then show ?thesis by (simp only: of_nat_less_iff)
  qed
  moreover from p have "x \<noteq> 0" by auto
  ultimately show ?thesis by simp
qed

lemma unat_small_sint:
  "unat x < 2 ^ 63 \<Longrightarrow> sint x = int (unat x)" for x :: "64 word"
proof -
  assume "unat x < 2 ^ 63"
  then have "int (unat x) < int (2 ^ 63)" by (simp only: of_nat_less_iff)
  then have "int (unat x) < 2 ^ 63" by simp
  moreover have "- (2 ^ 63) \<le> int (unat x)"
  proof -
    have "(- (2 ^ 63) :: int) \<le> 0" by simp
    also have "0 \<le> int (unat x)" by (rule of_nat_0_le_iff)
    finally show ?thesis .
  qed
  ultimately have "signed_take_bit 63 (int (unat x)) = int (unat x)"
    by (rule signed_take_bit_int_eq_self [rotated])
  moreover have "sint x = signed_take_bit 63 (int (unat x))"
    using sint_uint [of x] by simp
  ultimately show ?thesis by simp
qed

lemma small_sint_pos:
  "x \<noteq> 0 \<Longrightarrow> unat x < 2 ^ 63 \<Longrightarrow> 0 < sint x \<and> nat (sint x) = unat x" for x :: "64 word"
proof -
  assume "x \<noteq> 0" and s: "unat x < 2 ^ 63"
  then have "0 < unat x" by (simp add: unat_gt_0)
  then have "0 < int (unat x)" by (simp only: of_nat_0_less_iff)
  moreover have e: "sint x = int (unat x)" using s by (rule unat_small_sint)
  moreover have "nat (int (unat x)) = unat x" by (rule nat_int)
  ultimately show ?thesis by (simp only:)
qed

subsection \<open>\<^verbatim>\<open>pool_free\<close> in closed form\<close>

lemma pool_free_eq:
  assumes "pool_shape p"
  shows "pool_free (Some p) ptr =
     Some (Some
       (let idx = (ptr - memory p) div block_size p;
            N = allocation_sizes p ! unat idx
        in if ptr = 0 \<or> (ptr - memory p) mod block_size p \<noteq> 0 \<or> num_blocks p \<le> idx \<or>
              sint N \<le> 0 \<or> unat (num_blocks p) < unat idx + unat N
           then p
           else p\<lparr>allocation_sizes := fill (unat idx) (unat idx + unat N) 0 (allocation_sizes p),
                  free_blocks := free_blocks p + N\<rparr>))"
proof -
  let ?a = "allocation_sizes p"
  let ?idx = "(ptr - memory p) div block_size p"
  let ?N = "?a ! unat ?idx"
  from assms have bs: "block_size p \<noteq> 0" and len: "length ?a = unat (num_blocks p)"
    and small: "unat (num_blocks p) * 8 < 2 ^ 64"
    by (simp_all add: pool_shape_def)
  show ?thesis
  proof (cases "ptr = 0 \<or> (ptr - memory p) mod block_size p \<noteq> 0 \<or> num_blocks p \<le> ?idx")
    case True
    then show ?thesis using bs by (auto simp: Let_def)
  next
    case False
    then have inr: "unat ?idx < length ?a"
      using len by (simp add: word_le_nat_alt)
    then have r: "rd ?a ?idx = Some ?N" by (simp add: rd_def)
    show ?thesis
    proof (cases "sint ?N \<le> 0")
      case True
      with False r bs show ?thesis by (simp add: Let_def)
    next
      case pos: False
      then have N: "unat ?N < 2 ^ 63" using sint_pos_unat [of ?N] by simp
      have "unat ?idx + unat ?N < 2 ^ 64" using N inr len small by simp
      then have ex: "unat (?idx + ?N) = unat ?idx + unat ?N"
        by (rule unat_add_exact)
      then have cmp: "num_blocks p < ?idx + ?N \<longleftrightarrow> unat (num_blocks p) < unat ?idx + unat ?N"
        by (simp add: word_less_nat_alt)
      show ?thesis
      proof (cases "unat (num_blocks p) < unat ?idx + unat ?N")
        case True
        with False pos r bs cmp show ?thesis by (simp add: Let_def)
      next
        case fits: False
        have "store_loop ?a ?idx ?N 0 0 = Some (fill (unat ?idx) (unat ?idx + unat ?N) 0 ?a)"
          using fits len \<open>unat ?idx + unat ?N < 2 ^ 64\<close> by (simp add: store_loop_eq)
        with False pos r bs cmp fits show ?thesis by (simp add: Let_def)
      qed
    qed
  qed
qed

subsection \<open>\<^verbatim>\<open>pool_init\<close> in closed form\<close>

lemma fill_all: "fill 0 (length a) v a = replicate (length a) v"
  by (rule nth_equalityI) (simp_all add: nth_fill)

lemma table_capacity_le: "unat (nb * 8) div 8 \<le> unat nb" for nb :: "64 word"
proof -
  have "unat (nb * 8) \<le> unat nb * 8"
    using unat_mult_le [of nb 8] by simp
  then show ?thesis by simp
qed

lemma table_capacity_eq: "unat nb * 8 < 2 ^ 64 \<Longrightarrow> unat (nb * 8) div 8 = unat nb" for nb :: "64 word"
  using unat_mult_exact [of nb 8] by simp

lemma table_capacity_full:
  "unat nb \<le> unat (nb * 8) div 8 \<Longrightarrow> unat nb * 8 < 2 ^ 64" for nb :: "64 word"
proof -
  assume "unat nb \<le> unat (nb * 8) div 8"
  then have "unat nb * 8 \<le> unat (nb * 8)" by simp
  also have "\<dots> < 2 ^ 64" by (rule unat_bound)
  finally show ?thesis .
qed

lemma pool_init_eq:
  "pool_init struct_ok table_ok junk mem bs nb =
     (if mem = 0 \<or> bs = 0 \<or> nb = 0 \<or> \<not> struct_ok \<or> \<not> table_ok then Some None
      else if unat nb * 8 < 2 ^ 64
      then Some (Some \<lparr>memory = mem, block_size = bs, num_blocks = nb, free_blocks = nb,
                        allocation_sizes = replicate (unat nb) 0\<rparr>)
      else None)"
proof (cases "mem = 0 \<or> bs = 0 \<or> nb = 0 \<or> \<not> struct_ok \<or> \<not> table_ok")
  case True
  then show ?thesis by (auto simp: pool_init_def)
next
  case False
  let ?buf = "map junk [0 ..< unat (nb * 8) div 8]"
  have nz: "0 < nb" using False by (simp add: word_gt_0)
  have b: "unat (0 :: 64 word) + unat nb < 2 ^ 64" using unat_bound [of nb] by simp
  show ?thesis
  proof (cases "unat nb * 8 < 2 ^ 64")
    case True
    then have len: "length ?buf = unat nb" by (simp add: table_capacity_eq)
    have "store_loop ?buf 0 nb 0 0 = Some (fill 0 (unat nb) 0 ?buf)"
      using store_loop_eq [where a = ?buf and v = 0 and k = 0, OF b] len by simp
    also have "fill 0 (unat nb) 0 ?buf = replicate (unat nb) 0"
      using fill_all [of ?buf 0] len by simp
    finally show ?thesis using False True by (simp add: pool_init_def)
  next
    case over: False
    then have "\<not> unat nb \<le> length ?buf"
      using table_capacity_full [of nb] by auto
    then have "store_loop ?buf 0 nb 0 0 = None"
      using store_loop_eq [where a = ?buf and v = 0 and k = 0, OF b] nz by simp
    then show ?thesis using False over by (simp add: pool_init_def)
  qed
qed

lemma pool_init_shape:
  "pool_init struct_ok table_ok junk mem bs nb = Some (Some p) \<Longrightarrow>
   pool_shape p \<and> allocation_sizes p = replicate (unat nb) 0 \<and> free_blocks p = nb \<and>
   num_blocks p = nb \<and> block_size p = bs \<and> memory p = mem"
  by (auto simp: pool_init_eq pool_shape_def split: if_splits)

lemma pool_shape_fill:
  "pool_shape p \<Longrightarrow> pool_shape (p\<lparr>allocation_sizes := fill lo hi v (allocation_sizes p), free_blocks := f\<rparr>)"
  by (simp add: pool_shape_def)

declare pool_free.simps [simp del] pool_alloc.simps [simp del]

subsection \<open>Addresses of blocks\<close>

lemma block_addr:
  assumes "region_fits p" and "block_size p \<noteq> 0" and "k < unat (num_blocks p)"
  shows "unat (memory p + of_nat k * block_size p) = unat (memory p) + k * unat (block_size p)"
proof -
  have kb: "k < 2 ^ 64" using assms(3) unat_bound [of "num_blocks p"] by simp
  then have k: "unat (of_nat k :: 64 word) = k"
    by (simp add: unat_of_nat)
  have "0 < unat (block_size p)" using assms(2) by (simp add: unat_gt_0)
  moreover have "Suc k \<le> unat (num_blocks p)" using assms(3) by simp
  then have "Suc k * unat (block_size p) \<le> unat (num_blocks p) * unat (block_size p)"
    by (rule mult_le_mono1)
  ultimately have lt: "k * unat (block_size p) < unat (num_blocks p) * unat (block_size p)"
    using assms(3) by simp
  have "unat (memory p) + k * unat (block_size p)
      < unat (memory p) + unat (num_blocks p) * unat (block_size p)"
    using lt by (rule add_strict_left_mono)
  also have "\<dots> = unat (memory p) + unat (block_size p) * unat (num_blocks p)"
    by (simp only: mult.commute)
  also have "\<dots> \<le> 2 ^ 64"
    using assms(1) by (simp only: region_fits_def)
  finally have sum: "unat (memory p) + k * unat (block_size p) < 2 ^ 64" .
  then have "unat (of_nat k :: 64 word) * unat (block_size p) < 2 ^ 64"
    using k by simp
  then have m: "unat (of_nat k * block_size p) = k * unat (block_size p)"
    using unat_mult_exact [of "of_nat k" "block_size p"] k by simp
  with sum show ?thesis
    using unat_add_exact [of "memory p" "of_nat k * block_size p"] by simp
qed

lemma block_addr_nonnull:
  assumes "pool_shape p" and "region_fits p" and "k < length (allocation_sizes p)"
  shows "memory p + of_nat k * block_size p \<noteq> 0"
proof
  assume z: "memory p + of_nat k * block_size p = 0"
  from assms have "unat (memory p + of_nat k * block_size p)
      = unat (memory p) + k * unat (block_size p)"
    by (intro block_addr) (simp_all add: pool_shape_def)
  with z have "unat (memory p) = 0" by simp
  then show False using assms(1) by (simp add: pool_shape_def unat_eq_0)
qed

lemma pool_shape_small:
  "pool_shape p \<Longrightarrow> length (allocation_sizes p) < 2 ^ 61"
  by (simp add: pool_shape_def)

lemma pool_shape_len64:
  "pool_shape p \<Longrightarrow> length (allocation_sizes p) < 2 ^ 64"
  by (simp add: pool_shape_def)

text \<open>What \<^verbatim>\<open>pool_alloc\<close> can return on a pool of the right shape.\<close>

lemma pool_alloc_cases:
  assumes "pool_shape p" and "pool_alloc (Some p) sz = Some (ptr, q)"
  shows "ptr = 0 \<and> q = Some p \<or>
     sz \<noteq> 0 \<and> \<not> block_size p * free_blocks p < sz \<and>
     (\<exists>k. k < length (allocation_sizes p) \<and> allocation_sizes p ! k = 0 \<and>
          run_free (allocation_sizes p) (unat (num_blocks_needed p sz)) k \<and>
          (ptr, q) = (fst (marked p (num_blocks_needed p sz) k),
                      Some (snd (marked p (num_blocks_needed p sz) k))))"
proof (cases "sz = 0 \<or> block_size p * free_blocks p < sz")
  case True
  with assms(2) show ?thesis by (auto simp: pool_alloc.simps split: if_splits)
next
  case False
  with assms(2) obtain r where
    l: "alloc_loop p (num_blocks_needed p sz) 0 = Some r" and r: "ptr = fst r" "q = Some (snd r)"
    by (auto simp: pool_alloc.simps split: option.splits)
  from alloc_loop_cases [OF l pool_shape_len64 [OF assms(1)]] r False
  show ?thesis by auto
qed

lemma run_free_replicate:
  "run_free (replicate m 0) n k \<longleftrightarrow> k + n \<le> m"
  by (auto simp: run_free_def)

lemma marked_fresh_freed:
  assumes "unat n \<le> m"
  shows "fill 0 (unat n) 0 (fill (Suc 0) (unat n) (- 1) ((replicate m 0)[0 := n])) = replicate m 0"
  using assms by (intro nth_equalityI) (auto simp: nth_fill nth_list_update unat_eq_0)

subsection \<open>Counting free entries\<close>

lemma count_list_all: "(\<forall>x \<in> set xs. x = v) \<Longrightarrow> count_list xs v = length xs"
  by (induction xs) auto

lemma count_list_none: "v \<notin> set xs \<Longrightarrow> count_list xs v = 0"
  by (induction xs) auto

lemma count_list_replicate: "count_list (replicate m v) x = (if v = x then m else 0)"
  by (induction m) auto

lemma split_segment:
  "lo \<le> hi \<Longrightarrow> hi \<le> length a \<Longrightarrow> a = take lo a @ take (hi - lo) (drop lo a) @ drop hi a"
proof -
  assume "lo \<le> hi" and "hi \<le> length a"
  have "take (hi - lo) (drop lo a) @ drop hi a = drop lo a"
    using \<open>lo \<le> hi\<close> by (metis append_take_drop_id drop_drop le_add_diff_inverse2)
  then show ?thesis by simp
qed

lemma count_fill:
  assumes "lo \<le> hi" and "hi \<le> length a"
  shows "count_list (fill lo hi v a) x + count_list (take (hi - lo) (drop lo a)) x
       = count_list a x + (if v = x then hi - lo else 0)"
proof -
  have "count_list a x = count_list (take lo a) x + count_list (take (hi - lo) (drop lo a)) x
      + count_list (drop hi a) x"
    using split_segment [OF assms] by (metis count_list_append add.assoc)
  moreover have "count_list (fill lo hi v a) x
      = count_list (take lo a) x + (if v = x then hi - lo else 0) + count_list (drop hi a) x"
    by (simp add: fill_append [OF assms] count_list_replicate)
  ultimately show ?thesis by simp
qed

lemma segment_set:
  assumes le: "lo + n \<le> length a"
  shows "set (take n (drop lo a)) = {a ! j | j. lo \<le> j \<and> j < lo + n}"
proof (rule set_eqI, rule iffI)
  fix x assume "x \<in> set (take n (drop lo a))"
  then obtain i where i: "i < n" and x: "x = take n (drop lo a) ! i"
    using le by (auto simp: in_set_conv_nth)
  from x i le have "x = a ! (lo + i)" by simp
  moreover have "lo \<le> lo + i" and "lo + i < lo + n" using i by simp_all
  ultimately show "x \<in> {a ! j | j. lo \<le> j \<and> j < lo + n}" by blast
next
  fix x assume "x \<in> {a ! j | j. lo \<le> j \<and> j < lo + n}"
  then obtain j where x: "x = a ! j" and j: "lo \<le> j" "j < lo + n" by auto
  from j le have "j - lo < length (take n (drop lo a))" by simp
  moreover from j le x have "take n (drop lo a) ! (j - lo) = x" by simp
  ultimately show "x \<in> set (take n (drop lo a))" by (metis nth_mem)
qed

lemma update_as_fill: "k < length a \<Longrightarrow> a[k := w] = fill k (Suc k) w a"
  by (rule nth_equalityI) (auto simp: nth_fill nth_list_update)

text \<open>Marking a free run of \<open>n \<ge> 1\<close> blocks removes \<open>n\<close> zero entries.\<close>

lemma count_marked:
  assumes run: "run_free a n k" and n: "0 < n" and w: "w \<noteq> 0"
  shows "count_list (fill (Suc k) (k + n) (- 1) (a[k := w])) 0 + n = count_list a 0"
proof -
  from run n have k: "k < length a" and le: "k + n \<le> length a"
    and z: "\<forall>j \<in> {k ..< k + n}. a ! j = 0"
    by (simp_all add: run_free_def)
  let ?b = "a[k := w]"
  have "take (Suc k - k) (drop k a) = [a ! k]"
    using k by (simp add: take_Suc_conv_app_nth)
  with z n have one: "count_list (take (Suc k - k) (drop k a)) 0 = 1" by simp
  have "count_list (fill k (Suc k) w a) 0 + count_list (take (Suc k - k) (drop k a)) 0
      = count_list a 0 + (if w = 0 then Suc k - k else 0)"
    using k by (intro count_fill) simp_all
  with one w have b: "count_list ?b 0 + 1 = count_list a 0"
    using k by (simp add: update_as_fill)
  have "set (take (n - 1) (drop (Suc k) ?b)) = {?b ! j | j. Suc k \<le> j \<and> j < Suc k + (n - 1)}"
    using le n by (intro segment_set) simp
  also have "\<dots> \<subseteq> {0}"
    using z n by auto
  finally have "\<forall>x \<in> set (take (n - 1) (drop (Suc k) ?b)). x = 0" by auto
  then have "count_list (take (n - 1) (drop (Suc k) ?b)) 0 = length (take (n - 1) (drop (Suc k) ?b))"
    by (rule count_list_all)
  also have "\<dots> = n - 1" using le n by simp
  finally have seg: "count_list (take (k + n - Suc k) (drop (Suc k) ?b)) 0 = n - 1" by simp
  have "count_list (fill (Suc k) (k + n) (- 1) ?b) 0
        + count_list (take (k + n - Suc k) (drop (Suc k) ?b)) 0
      = count_list ?b 0 + (if (- 1 :: 64 word) = 0 then k + n - Suc k else 0)"
    using le n by (intro count_fill) simp_all
  with seg have "count_list (fill (Suc k) (k + n) (- 1) ?b) 0 + (n - 1) = count_list ?b 0"
    by simp
  with b n show ?thesis by simp
qed

text \<open>Zeroing a run whose entries are all non-zero adds its length to the zero entries.\<close>

lemma count_freed:
  assumes le: "idx + n \<le> length a" and nz: "\<forall>j \<in> {idx ..< idx + n}. a ! j \<noteq> 0"
  shows "count_list (fill idx (idx + n) 0 a) 0 = count_list a 0 + n"
proof -
  have "set (take n (drop idx a)) = {a ! j | j. idx \<le> j \<and> j < idx + n}"
    using le by (rule segment_set)
  with nz have "0 \<notin> set (take n (drop idx a))" by auto
  then have "count_list (take (idx + n - idx) (drop idx a)) 0 = 0"
    by (simp add: count_list_none)
  moreover have "count_list (fill idx (idx + n) 0 a) 0
        + count_list (take (idx + n - idx) (drop idx a)) 0
      = count_list a 0 + (if (0 :: 64 word) = 0 then idx + n - idx else 0)"
    using le by (intro count_fill) simp_all
  ultimately show ?thesis by simp
qed

lemma count_list_le_length: "count_list xs v \<le> length xs"
  by (induction xs) auto


subsection \<open>The table invariant\<close>

lemma table_inv_shape:
  "table_inv a \<Longrightarrow> i < length a \<Longrightarrow> a ! i = 0 \<or> a ! i = - 1 \<or> 0 < sint (a ! i)"
  unfolding table_inv_def by blast

lemma table_inv_run:
  "table_inv a \<Longrightarrow> i < length a \<Longrightarrow> 0 < sint (a ! i) \<Longrightarrow> i + nat (sint (a ! i)) \<le> length a"
  unfolding table_inv_def by blast

lemma table_inv_cont:
  assumes "table_inv a" and "i < length a" and "0 < sint (a ! i)"
    and "i < j" and "j < i + nat (sint (a ! i))"
  shows "a ! j = - 1"
proof -
  from assms(4,5) have "j \<in> {i + 1 ..< i + nat (sint (a ! i))}" by simp
  with assms(1-3) show ?thesis unfolding table_inv_def by blast
qed

lemma table_invI:
  assumes "\<And>i. i < length a \<Longrightarrow> a ! i = 0 \<or> a ! i = - 1 \<or> 0 < sint (a ! i)"
    and "\<And>i. i < length a \<Longrightarrow> 0 < sint (a ! i) \<Longrightarrow> i + nat (sint (a ! i)) \<le> length a"
    and "\<And>i j. i < length a \<Longrightarrow> 0 < sint (a ! i) \<Longrightarrow> i < j \<Longrightarrow>
           j < i + nat (sint (a ! i)) \<Longrightarrow> a ! j = - 1"
  shows "table_inv a"
  unfolding table_inv_def
proof (intro ballI conjI impI)
  fix i assume "i \<in> {..< length a}"
  then show "a ! i = 0 \<or> a ! i = - 1 \<or> 0 < sint (a ! i)" using assms(1) by simp
next
  fix i assume "i \<in> {..< length a}" and "0 < sint (a ! i)"
  then show "i + nat (sint (a ! i)) \<le> length a" using assms(2) by simp
next
  fix i j assume "i \<in> {..< length a}" and "0 < sint (a ! i)"
    and "j \<in> {i + 1 ..< i + nat (sint (a ! i))}"
  then show "a ! j = - 1" using assms(3) [of i j] by simp
qed

lemma table_inv_replicate: "table_inv (replicate m 0)"
  by (rule table_invI) simp_all

lemma table_inv_marked:
  assumes inv: "table_inv a" and run: "run_free a n k" and n: "0 < n"
    and w: "0 < sint w" "nat (sint w) = n"
  shows "table_inv (fill (Suc k) (k + n) (- 1) (a[k := w]))"
proof -
  let ?b = "fill (Suc k) (k + n) (- 1) (a[k := w])"
  from run n have k: "k < length a" and le: "k + n \<le> length a"
    and z: "\<And>j. k \<le> j \<Longrightarrow> j < k + n \<Longrightarrow> a ! j = 0"
    by (simp_all add: run_free_def)
  have len: "length ?b = length a" by simp
  have at_k: "?b ! k = w" using k by (simp add: nth_fill)
  have inside: "\<And>i. k < i \<Longrightarrow> i < k + n \<Longrightarrow> ?b ! i = - 1"
    using le by (simp add: nth_fill)
  have outside: "\<And>i. i < length a \<Longrightarrow> i \<noteq> k \<Longrightarrow> \<not> (k < i \<and> i < k + n) \<Longrightarrow> ?b ! i = a ! i"
    by (auto simp: nth_fill)
  have cases: "\<And>i. i < length a \<Longrightarrow> 0 < sint (?b ! i) \<Longrightarrow> i \<noteq> k \<Longrightarrow>
      \<not> (k \<le> i \<and> i < k + n) \<and> ?b ! i = a ! i"
  proof -
    fix i assume i: "i < length a" and p: "0 < sint (?b ! i)" and ne: "i \<noteq> k"
    have "\<not> (k < i \<and> i < k + n)"
    proof
      assume "k < i \<and> i < k + n"
      then have "?b ! i = - 1" using inside by simp
      with p show False by simp
    qed
    with ne i show "\<not> (k \<le> i \<and> i < k + n) \<and> ?b ! i = a ! i"
      using outside [of i] by auto
  qed
  show ?thesis
  proof (rule table_invI)
    fix i assume "i < length ?b"
    then have i: "i < length a" by simp
    show "?b ! i = 0 \<or> ?b ! i = - 1 \<or> 0 < sint (?b ! i)"
    proof (cases "i = k")
      case True
      with at_k w show ?thesis by simp
    next
      case ne: False
      show ?thesis
      proof (cases "k < i \<and> i < k + n")
        case True
        then show ?thesis using inside by simp
      next
        case False
        have "?b ! i = a ! i" by (rule outside [OF i ne False])
        with table_inv_shape [OF inv i] show ?thesis by simp
      qed
    qed
  next
    fix i assume "i < length ?b" and p: "0 < sint (?b ! i)"
    then have i: "i < length a" by simp
    show "i + nat (sint (?b ! i)) \<le> length ?b"
    proof (cases "i = k")
      case True
      with at_k w le show ?thesis by simp
    next
      case False
      with cases [OF i p] have e: "?b ! i = a ! i" by simp
      with p have "0 < sint (a ! i)" by simp
      from table_inv_run [OF inv i this] e show ?thesis by simp
    qed
  next
    fix i j assume "i < length ?b" and p: "0 < sint (?b ! i)"
      and j: "i < j" "j < i + nat (sint (?b ! i))"
    then have i: "i < length a" by simp
    show "?b ! j = - 1"
    proof (cases "i = k")
      case True
      with at_k w j have "k < j" "j < k + n" by simp_all
      then show ?thesis by (rule inside)
    next
      case False
      with cases [OF i p] have e: "?b ! i = a ! i" by simp
      with p have p': "0 < sint (a ! i)" by simp
      from j e have j': "j < i + nat (sint (a ! i))" by simp
      from table_inv_run [OF inv i p'] j' have jl: "j < length a" by simp
      from table_inv_cont [OF inv i p' j(1) j'] have aj: "a ! j = - 1" .
      have "\<not> (k \<le> j \<and> j < k + n)"
      proof
        assume "k \<le> j \<and> j < k + n"
        then have "a ! j = 0" using z by simp
        with aj show False by simp
      qed
      then have "?b ! j = a ! j" using jl n by (intro outside) auto
      with aj show ?thesis by simp
    qed
  qed
qed

lemma table_inv_freed:
  assumes inv: "table_inv a" and idx: "idx < length a" and pos: "0 < sint (a ! idx)"
    and n: "n = nat (sint (a ! idx))"
  shows "table_inv (fill idx (idx + n) 0 a)"
proof -
  let ?b = "fill idx (idx + n) 0 a"
  have inside: "\<And>i. i < length a \<Longrightarrow> idx \<le> i \<Longrightarrow> i < idx + n \<Longrightarrow> ?b ! i = 0"
    by (simp add: nth_fill)
  have outside: "\<And>i. i < length a \<Longrightarrow> \<not> (idx \<le> i \<and> i < idx + n) \<Longrightarrow> ?b ! i = a ! i"
    by (auto simp: nth_fill)
  have cases: "\<And>i. i < length a \<Longrightarrow> 0 < sint (?b ! i) \<Longrightarrow>
      \<not> (idx \<le> i \<and> i < idx + n) \<and> ?b ! i = a ! i"
  proof -
    fix i assume i: "i < length a" and p: "0 < sint (?b ! i)"
    have "\<not> (idx \<le> i \<and> i < idx + n)"
    proof
      assume "idx \<le> i \<and> i < idx + n"
      then have "?b ! i = 0" using inside [OF i] by simp
      with p show False by simp
    qed
    then show "\<not> (idx \<le> i \<and> i < idx + n) \<and> ?b ! i = a ! i"
      using outside [OF i] by simp
  qed
  show ?thesis
  proof (rule table_invI)
    fix i assume "i < length ?b"
    then have i: "i < length a" by simp
    show "?b ! i = 0 \<or> ?b ! i = - 1 \<or> 0 < sint (?b ! i)"
    proof (cases "idx \<le> i \<and> i < idx + n")
      case True
      then show ?thesis using inside [OF i] by simp
    next
      case False
      then have "?b ! i = a ! i" by (rule outside [OF i])
      with table_inv_shape [OF inv i] show ?thesis by simp
    qed
  next
    fix i assume "i < length ?b" and p: "0 < sint (?b ! i)"
    then have i: "i < length a" by simp
    from cases [OF i p] have e: "?b ! i = a ! i" by simp
    with p have "0 < sint (a ! i)" by simp
    from table_inv_run [OF inv i this] e show "i + nat (sint (?b ! i)) \<le> length ?b" by simp
  next
    fix i j assume "i < length ?b" and p: "0 < sint (?b ! i)"
      and j: "i < j" "j < i + nat (sint (?b ! i))"
    then have i: "i < length a" by simp
    from cases [OF i p] have out: "\<not> (idx \<le> i \<and> i < idx + n)" and e: "?b ! i = a ! i"
      by simp_all
    from e p have p': "0 < sint (a ! i)" by simp
    from j e have j': "j < i + nat (sint (a ! i))" by simp
    from table_inv_run [OF inv i p'] j' have jl: "j < length a" by simp
    from table_inv_cont [OF inv i p' j(1) j'] have aj: "a ! j = - 1" .
    have "\<not> (idx \<le> j \<and> j < idx + n)"
    proof
      assume in_run: "idx \<le> j \<and> j < idx + n"
      with out j(1) have "i < idx" by simp
      moreover from in_run j' have "idx < i + nat (sint (a ! i))" by simp
      ultimately have "a ! idx = - 1" by (rule table_inv_cont [OF inv i p'])
      with pos show False by simp
    qed
    then have "?b ! j = a ! j" by (rule outside [OF jl])
    with aj show "?b ! j = - 1" by simp
  qed
qed

text \<open>In a table that satisfies the invariant, no entry of a recorded run is 0.\<close>

lemma run_nonzero:
  assumes inv: "table_inv a" and idx: "idx < length a" and pos: "0 < sint (a ! idx)"
  shows "\<forall>j \<in> {idx ..< idx + nat (sint (a ! idx))}. a ! j \<noteq> 0"
proof
  fix j assume j: "j \<in> {idx ..< idx + nat (sint (a ! idx))}"
  show "a ! j \<noteq> 0"
  proof (cases "j = idx")
    case True
    with pos show ?thesis by auto
  next
    case False
    with j have "idx < j" "j < idx + nat (sint (a ! idx))" by simp_all
    then have "a ! j = - 1" by (rule table_inv_cont [OF inv idx pos])
    then show ?thesis by simp
  qed
qed

subsection \<open>The invariant along the calls\<close>

lemma pool_inv_init:
  assumes "pool_init struct_ok table_ok junk mem bs nb = Some (Some p)"
  shows "pool_inv p"
  using pool_init_shape [OF assms]
  by (simp add: pool_inv_def table_inv_replicate count_list_replicate)

lemma pool_inv_marked:
  assumes inv: "pool_inv p" and z: "allocation_sizes p ! k = 0"
    and run: "run_free (allocation_sizes p) (unat n) k" and k: "k < length (allocation_sizes p)"
  shows "pool_inv (snd (marked p n k))"
proof (cases "n = 0")
  case True
  have "(allocation_sizes p)[k := 0] = allocation_sizes p"
    using z list_update_id [of "allocation_sizes p" k] by simp
  then have "snd (marked p n k) = p"
    using True by (simp add: marked_def fill_empty)
  with inv show ?thesis by simp
next
  case False
  let ?a = "allocation_sizes p"
  let ?b = "fill (Suc k) (k + unat n) (- 1) (?a[k := n])"
  from inv have sh: "pool_shape p" and ti: "table_inv ?a"
    and fb: "unat (free_blocks p) = count_list ?a 0"
    by (simp_all add: pool_inv_def)
  from run have le: "k + unat n \<le> length ?a" by (simp add: run_free_def)
  with pool_shape_small [OF sh] have "unat n < 2 ^ 61" by simp
  then have "unat n < 2 ^ 63" by simp
  with False have w: "0 < sint n" "nat (sint n) = unat n"
    using small_sint_pos [of n] by simp_all
  have pos: "0 < unat n" using False by (simp add: unat_gt_0)
  have ti': "table_inv ?b"
    using ti run pos w by (rule table_inv_marked)
  have cnt: "count_list ?b 0 + unat n = count_list ?a 0"
    using run pos False by (rule count_marked)
  then have "unat n \<le> unat (free_blocks p)" using fb by simp
  then have "n \<le> free_blocks p" by (simp add: word_le_nat_alt)
  then have "unat (free_blocks p - n) = unat (free_blocks p) - unat n"
    by (rule unat_sub)
  with cnt fb have fb': "unat (free_blocks p - n) = count_list ?b 0" by simp
  have "pool_shape (p\<lparr>allocation_sizes := ?b, free_blocks := free_blocks p - n\<rparr>)"
    using sh by (simp add: pool_shape_def)
  with ti' fb' show ?thesis by (simp add: pool_inv_def marked_def)
qed

lemma pool_inv_alloc:
  assumes inv: "pool_inv p" and alloc: "pool_alloc (Some p) sz = Some (ptr, Some p')"
  shows "pool_inv p'"
proof -
  from inv have sh: "pool_shape p" by (simp add: pool_inv_def)
  from pool_alloc_cases [OF sh alloc] show ?thesis
  proof (elim disjE conjE exE)
    assume "Some p' = Some p"
    with inv show ?thesis by simp
  next
    fix k
    assume k: "k < length (allocation_sizes p)" and z: "allocation_sizes p ! k = 0"
      and run: "run_free (allocation_sizes p) (unat (num_blocks_needed p sz)) k"
      and r: "(ptr, Some p') = (fst (marked p (num_blocks_needed p sz) k),
                           Some (snd (marked p (num_blocks_needed p sz) k)))"
    from r have "p' = snd (marked p (num_blocks_needed p sz) k)" by simp
    with pool_inv_marked [OF inv z run k] show ?thesis by simp
  qed
qed

lemma pool_inv_free:
  assumes inv: "pool_inv p" and free: "pool_free (Some p) ptr = Some (Some p')"
  shows "pool_inv p'"
proof -
  let ?a = "allocation_sizes p"
  let ?idx = "(ptr - memory p) div block_size p"
  let ?N = "?a ! unat ?idx"
  let ?b = "fill (unat ?idx) (unat ?idx + unat ?N) 0 ?a"
  from inv have sh: "pool_shape p" and ti: "table_inv ?a"
    and fb: "unat (free_blocks p) = count_list ?a 0"
    by (simp_all add: pool_inv_def)
  show ?thesis
  proof (cases "ptr = 0 \<or> (ptr - memory p) mod block_size p \<noteq> 0 \<or> num_blocks p \<le> ?idx \<or>
        sint ?N \<le> 0 \<or> unat (num_blocks p) < unat ?idx + unat ?N")
    case True
    with free have "p' = p"
      by (auto simp: pool_free_eq [OF sh] Let_def)
    with inv show ?thesis by simp
  next
    case False
    with free have p': "p' = p\<lparr>allocation_sizes := ?b, free_blocks := free_blocks p + ?N\<rparr>"
      by (simp add: pool_free_eq [OF sh] Let_def)
    from sh have len: "length ?a = unat (num_blocks p)" by (simp add: pool_shape_def)
    from False have idx: "unat ?idx < length ?a" and pos: "0 < sint ?N"
      and le: "unat ?idx + unat ?N \<le> length ?a"
      using len by (simp_all add: word_le_nat_alt)
    from sint_pos_unat [OF pos] have N: "unat ?N = nat (sint ?N)" by linarith
    have ti': "table_inv ?b"
      using ti idx pos N by (rule table_inv_freed)
    have "\<forall>j \<in> {unat ?idx ..< unat ?idx + unat ?N}. ?a ! j \<noteq> 0"
      using run_nonzero [OF ti idx pos] N by simp
    with le have cnt: "count_list ?b 0 = count_list ?a 0 + unat ?N"
      by (rule count_freed)
    have "count_list ?b 0 \<le> length ?b" by (rule count_list_le_length)
    with cnt fb pool_shape_len64 [OF sh] have "unat (free_blocks p) + unat ?N < 2 ^ 64"
      by simp
    then have "unat (free_blocks p + ?N) = unat (free_blocks p) + unat ?N"
      by (rule unat_add_exact)
    with cnt fb have fb': "unat (free_blocks p + ?N) = count_list ?b 0" by simp
    have "pool_shape (p\<lparr>allocation_sizes := ?b, free_blocks := free_blocks p + ?N\<rparr>)"
      using sh by (rule pool_shape_fill)
    with ti' fb' p' show ?thesis by (simp add: pool_inv_def)
  qed
qed

lemma reachable_inv: "reachable p \<Longrightarrow> pool_inv p"
proof (induction rule: reachable.induct)
  case (reach_init struct_ok table_ok junk mem bs nb p)
  then show ?case by (rule pool_inv_init)
next
  case (reach_alloc p sz ptr p')
  then show ?case using pool_inv_alloc by blast
next
  case (reach_free p ptr p')
  then show ?case using pool_inv_free by blast
qed

section \<open>The invariant of the allocation table\<close>

text \<open>
  C1. In every pool state reached from a successful \<^verbatim>\<open>pool_init\<close> by calls of
  \<^verbatim>\<open>pool_alloc\<close> (any size) and \<^verbatim>\<open>pool_free\<close> (any address): the table has \<^verbatim>\<open>num_blocks\<close>
  entries; every entry is \<open>0\<close>, \<open>-1\<close> or positive; a positive entry \<open>N\<close> at index \<open>i\<close> has
  \<open>i + N \<le> num_blocks\<close> and the entries \<open>i+1 .. i+N-1\<close> are all \<open>-1\<close>; and \<^verbatim>\<open>free_blocks\<close>
  is the number of entries equal to \<open>0\<close>.
\<close>

theorem reachable_table_invariant:
  "reachable p \<Longrightarrow>
     length (allocation_sizes p) = unat (num_blocks p) \<and>
     (\<forall>i < unat (num_blocks p).
        (allocation_sizes p ! i = 0 \<or> allocation_sizes p ! i = - 1 \<or>
         0 < sint (allocation_sizes p ! i)) \<and>
        (0 < sint (allocation_sizes p ! i) \<longrightarrow>
           i + nat (sint (allocation_sizes p ! i)) \<le> unat (num_blocks p) \<and>
           (\<forall>j. i < j \<and> j < i + nat (sint (allocation_sizes p ! i)) \<longrightarrow>
                allocation_sizes p ! j = - 1))) \<and>
     unat (free_blocks p) = count_list (allocation_sizes p) 0"
proof (intro conjI allI impI)
  assume "reachable p"
  then have inv: "pool_inv p" by (rule reachable_inv)
  then have sh: "pool_shape p" and ti: "table_inv (allocation_sizes p)"
    and fb: "unat (free_blocks p) = count_list (allocation_sizes p) 0"
    unfolding pool_inv_def by blast+
  from sh have len: "length (allocation_sizes p) = unat (num_blocks p)"
    unfolding pool_shape_def by blast
  show "length (allocation_sizes p) = unat (num_blocks p)" by (rule len)
  show "unat (free_blocks p) = count_list (allocation_sizes p) 0" by (rule fb)
  {
    fix i assume "i < unat (num_blocks p)"
    then have i: "i < length (allocation_sizes p)" by (simp only: len)
    show "allocation_sizes p ! i = 0 \<or> allocation_sizes p ! i = - 1 \<or>
         0 < sint (allocation_sizes p ! i)"
      using ti i by (rule table_inv_shape)
    assume pos: "0 < sint (allocation_sizes p ! i)"
    have "i + nat (sint (allocation_sizes p ! i)) \<le> length (allocation_sizes p)"
      using ti i pos by (rule table_inv_run)
    then show "i + nat (sint (allocation_sizes p ! i)) \<le> unat (num_blocks p)"
      by (simp only: len)
    fix j assume "i < j \<and> j < i + nat (sint (allocation_sizes p ! i))"
    then have "i < j" and "j < i + nat (sint (allocation_sizes p ! i))" by blast+
    with ti i pos show "allocation_sizes p ! j = - 1" by (rule table_inv_cont)
  }
qed

theorem reachable_table_invariant_witness:
  "reachable pool_a \<and>
   length (allocation_sizes pool_a) = unat (num_blocks pool_a) \<and>
   0 < sint (allocation_sizes pool_a ! 0) \<and>
   0 + nat (sint (allocation_sizes pool_a ! 0)) \<le> unat (num_blocks pool_a) \<and>
   allocation_sizes pool_a ! 1 = - 1 \<and>
   unat (free_blocks pool_a) = count_list (allocation_sizes pool_a) 0"
proof -
  have i: "pool_init True True (\<lambda>i. 7) 4096 16 4 = Some (Some pool_fresh)"
    by (simp add: pool_init_def wr_def store_loop.simps upt_conv_Cons pool_fresh_def)
  have a: "pool_alloc (Some pool_fresh) 20 = Some (4096, Some pool_a)"
    by (simp add: pool_alloc.simps alloc_loop.simps alloc_step_def num_blocks_needed_def
        rd_def wr_def check_loop.simps store_loop.simps pool_fresh_def pool_a_def)
  have r: "reachable pool_a"
    using reach_alloc [OF reach_init [OF i] a] .
  have h: "0 < sint (allocation_sizes pool_a ! 0)"
    by (simp add: pool_a_def)
  have b: "(0 :: nat) < unat (num_blocks pool_a)"
    by (simp add: pool_a_def)
  have j: "(0 :: nat) < 1 \<and> 1 < 0 + nat (sint (allocation_sizes pool_a ! 0))"
    by (simp add: pool_a_def)
  from reachable_table_invariant [OF r] b h j r show ?thesis
    by blast
qed

section \<open>Creation\<close>

text \<open>
  What \<^verbatim>\<open>pool_init\<close> does as long as the byte count \<^verbatim>\<open>num_blocks * sizeof(ssize_t)\<close> of
  line 38 does not wrap: it returns \<^verbatim>\<open>NULL\<close> exactly when \<^verbatim>\<open>memory\<close> is null, \<^verbatim>\<open>block_size\<close>
  is 0, \<^verbatim>\<open>num_blocks\<close> is 0 or one of the two \<^verbatim>\<open>malloc\<close> calls fails, and otherwise a pool
  whose table has \<^verbatim>\<open>num_blocks\<close> entries, all 0, with \<^verbatim>\<open>free_blocks = num_blocks\<close> and the
  caller's \<^verbatim>\<open>memory\<close>, \<^verbatim>\<open>block_size\<close> and \<^verbatim>\<open>num_blocks\<close> as given. A pool is returned only
  when the byte count has not wrapped.
\<close>

lemma pool_init_result:
  "(pool_init struct_ok table_ok junk mem bs nb = Some None \<longleftrightarrow>
      mem = 0 \<or> bs = 0 \<or> nb = 0 \<or> \<not> struct_ok \<or> \<not> table_ok) \<and>
   (\<forall>p. pool_init struct_ok table_ok junk mem bs nb = Some (Some p) \<longrightarrow>
      length (allocation_sizes p) = unat nb \<and> (\<forall>v \<in> set (allocation_sizes p). v = 0) \<and>
      free_blocks p = nb \<and> memory p = mem \<and> block_size p = bs \<and> num_blocks p = nb) \<and>
   ((\<exists>p. pool_init struct_ok table_ok junk mem bs nb = Some (Some p)) \<longleftrightarrow>
      \<not> (mem = 0 \<or> bs = 0 \<or> nb = 0 \<or> \<not> struct_ok \<or> \<not> table_ok) \<and> unat nb * 8 < 2 ^ 64)"
  by (auto simp: pool_init_eq)

text \<open>
  C8. \<^verbatim>\<open>pool_init\<close> is to return \<^verbatim>\<open>NULL\<close> exactly when \<^verbatim>\<open>memory\<close> is null, \<^verbatim>\<open>block_size\<close> is
  0, \<^verbatim>\<open>num_blocks\<close> is 0 or a metadata allocation fails, and otherwise a pool whose table has
  \<^verbatim>\<open>num_blocks\<close> entries, all 0, with \<^verbatim>\<open>free_blocks = num_blocks\<close> and the caller's memory.
  The code departs from it where the product of line 38 wraps. Take \<^verbatim>\<open>memory = 4096\<close>,
  \<^verbatim>\<open>block_size = 1\<close> and \<^verbatim>\<open>num_blocks = 2^61 + 1\<close>, a region that lies within the address
  space, and let both \<^verbatim>\<open>malloc\<close> calls succeed: none of the failure conditions holds, the
  byte count wraps to 8, the storage holds one entry, and the loop of lines 44-46 writes
  past it at index 1. The call neither returns \<^verbatim>\<open>NULL\<close> nor a pool with a table of
  \<^verbatim>\<open>num_blocks\<close> entries.
\<close>

theorem pool_init_table_overrun:
  "(4096 :: addr) \<noteq> 0 \<and> (1 :: size_t) \<noteq> 0 \<and> (2305843009213693953 :: size_t) \<noteq> 0 \<and>
   unat (4096 :: addr) + unat (1 :: size_t) * unat (2305843009213693953 :: size_t) \<le> 2 ^ 64 \<and>
   (2305843009213693953 :: size_t) * 8 = 8 \<and>
   unat ((2305843009213693953 :: size_t) * 8) div 8 = 1 \<and>
   pool_init True True (\<lambda>i. 0) 4096 1 2305843009213693953 = None"
proof (intro conjI)
  show "(4096 :: addr) \<noteq> 0" by simp
  show "(1 :: size_t) \<noteq> 0" by simp
  show "(2305843009213693953 :: size_t) \<noteq> 0" by simp
  show "unat (4096 :: addr) + unat (1 :: size_t) * unat (2305843009213693953 :: size_t) \<le> 2 ^ 64"
    by simp
  show "(2305843009213693953 :: size_t) * 8 = 8" by simp
  show "unat ((2305843009213693953 :: size_t) * 8) div 8 = 1" by simp
  show "pool_init True True (\<lambda>i. 0) 4096 1 2305843009213693953 = None"
    by (simp add: pool_init_def wr_def store_loop.simps upt_conv_Cons)
qed

section \<open>Rejected requests\<close>

text \<open>
  C4. \<^verbatim>\<open>pool_alloc\<close> returns \<^verbatim>\<open>NULL\<close>, and leaves the pool as it is, when the size is \<open>0\<close> and
  when the size exceeds the product \<open>block_size * free_blocks\<close> taken over the natural
  numbers, where it cannot wrap. No assumption on the pool is needed.
\<close>

theorem pool_alloc_rejects:
  "sz = 0 \<or> unat (block_size p) * unat (free_blocks p) < unat sz \<Longrightarrow>
   pool_alloc (Some p) sz = Some (0, Some p)"
proof (cases "sz = 0")
  case True
  then show ?thesis by (simp add: pool_alloc.simps)
next
  case False
  assume "sz = 0 \<or> unat (block_size p) * unat (free_blocks p) < unat sz"
  with False have "unat (block_size p * free_blocks p) < unat sz"
    using unat_mult_le [of "block_size p" "free_blocks p"] by simp
  then have "block_size p * free_blocks p < sz"
    by (simp add: word_less_nat_alt)
  with False show ?thesis by (simp add: pool_alloc.simps)
qed

theorem pool_alloc_rejects_witness:
  "unat (block_size pool_a) * unat (free_blocks pool_a) < unat (33 :: size_t) \<and>
   pool_alloc (Some pool_a) 33 = Some (0, Some pool_a) \<and>
   pool_alloc (Some pool_a) 0 = Some (0, Some pool_a)"
proof (intro conjI)
  show h: "unat (block_size pool_a) * unat (free_blocks pool_a) < unat (33 :: size_t)"
    by (simp add: pool_a_def)
  show "pool_alloc (Some pool_a) 33 = Some (0, Some pool_a)"
    by (rule pool_alloc_rejects) (rule disjI2, rule h)
  show "pool_alloc (Some pool_a) 0 = Some (0, Some pool_a)"
    by (rule pool_alloc_rejects) (rule disjI1, rule refl)
qed

text \<open>
  C6. On a pool of \<^verbatim>\<open>pool_init\<close>'s shape whose region lies within the address space, a
  call of \<^verbatim>\<open>pool_alloc\<close> that returns \<^verbatim>\<open>NULL\<close>, for whatever reason (size 0, size beyond the
  free capacity, no run of free blocks long enough), leaves the pool exactly as it was:
  same table, same \<^verbatim>\<open>free_blocks\<close>.
\<close>

theorem pool_alloc_failure:
  assumes "pool_shape p" and "region_fits p" and "pool_alloc (Some p) sz = Some (0, q)"
  shows "q = Some p"
proof -
  from pool_alloc_cases [OF assms(1,3)]
  show ?thesis
  proof
    assume "0 = 0 \<and> q = Some p"
    then show ?thesis by simp
  next
    assume "sz \<noteq> 0 \<and> \<not> block_size p * free_blocks p < sz \<and>
     (\<exists>k. k < length (allocation_sizes p) \<and> allocation_sizes p ! k = 0 \<and>
          run_free (allocation_sizes p) (unat (num_blocks_needed p sz)) k \<and>
          (0, q) = (fst (marked p (num_blocks_needed p sz) k),
                      Some (snd (marked p (num_blocks_needed p sz) k))))"
    then obtain k where k: "k < length (allocation_sizes p)"
      and z: "memory p + of_nat k * block_size p = 0"
      by (auto simp: marked_def)
    from block_addr_nonnull [OF assms(1,2) k] z show ?thesis by simp
  qed
qed

theorem pool_alloc_failure_witness:
  "pool_shape pool_c \<and> region_fits pool_c \<and>
   pool_alloc (Some pool_c) 32 = Some (0, Some pool_c) \<and>
   pool_alloc (Some pool_a) 48 = Some (0, Some pool_a) \<and>
   pool_alloc (Some pool_a) 0 = Some (0, Some pool_a)"
proof -
  have s: "pool_shape pool_c" "pool_shape pool_a"
    by (simp_all add: pool_shape_def pool_c_def pool_a_def)
  have r: "region_fits pool_c" "region_fits pool_a"
    by (simp_all add: region_fits_def pool_c_def pool_a_def)
  have "\<exists>q. pool_alloc (Some pool_c) 32 = Some (0, q)"
    by (simp add: pool_alloc.simps alloc_loop.simps alloc_step_def num_blocks_needed_def
        rd_def check_loop.simps pool_c_def)
  then obtain q1 where 1: "pool_alloc (Some pool_c) 32 = Some (0, q1)" ..
  have "\<exists>q. pool_alloc (Some pool_a) 48 = Some (0, q)"
    by (simp add: pool_alloc.simps pool_a_def)
  then obtain q2 where 2: "pool_alloc (Some pool_a) 48 = Some (0, q2)" ..
  have "\<exists>q. pool_alloc (Some pool_a) 0 = Some (0, q)"
    by (simp add: pool_alloc.simps)
  then obtain q3 where 3: "pool_alloc (Some pool_a) 0 = Some (0, q3)" ..
  from pool_alloc_failure [OF s(1) r(1) 1] pool_alloc_failure [OF s(2) r(2) 2]
    pool_alloc_failure [OF s(2) r(2) 3] 1 2 3 s r
  show ?thesis by simp
qed

section \<open>Freeing\<close>

text \<open>
  C10. \<^verbatim>\<open>pool_free\<close> with a null pointer returns at line 103: the pool, its table and
  \<^verbatim>\<open>free_blocks\<close> are as before, whatever the pool.
\<close>

theorem pool_free_null:
  "pool_free (Some p) 0 = Some (Some p)"
  by (simp add: pool_free.simps)

text \<open>
  C7. On a pool as \<^verbatim>\<open>pool_init\<close> shapes it, whatever its table holds, \<^verbatim>\<open>pool_free\<close> returns
  with the pool unchanged (table and \<^verbatim>\<open>free_blocks\<close>) when the offset
  \<^verbatim>\<open>ptr - memory\<close> is not a multiple of \<^verbatim>\<open>block_size\<close>, when the block index is
  \<^verbatim>\<open>num_blocks\<close> or more, when the entry at the index is \<open>0\<close> or \<open>-1\<close>, and when it is a
  positive \<open>N\<close> with \<open>index + N > num_blocks\<close>; offset, index and sum are taken over the natural
  numbers. And \<^verbatim>\<open>pool_free\<close> called a second time with the same address changes nothing:
  the second call returns the pool the first one left.
\<close>

theorem pool_free_invalid:
  assumes "pool_shape p"
  shows "((let off = unat (ptr - memory p);
               idx = off div unat (block_size p);
               N = allocation_sizes p ! idx
           in off mod unat (block_size p) \<noteq> 0 \<or> unat (num_blocks p) \<le> idx \<or>
              idx < unat (num_blocks p) \<and>
                (N = 0 \<or> N = - 1 \<or> 0 < sint N \<and> unat (num_blocks p) < idx + nat (sint N)))
          \<longrightarrow> pool_free (Some p) ptr = Some (Some p)) \<and>
         (\<exists>p'. pool_free (Some p) ptr = Some (Some p') \<and>
               pool_free (Some p') ptr = Some (Some p'))"
proof (rule conjI)
  let ?a = "allocation_sizes p"
  let ?idx = "(ptr - memory p) div block_size p"
  let ?N = "?a ! unat ?idx"
  let ?p' = "p\<lparr>allocation_sizes := fill (unat ?idx) (unat ?idx + unat ?N) 0 ?a,
                free_blocks := free_blocks p + ?N\<rparr>"
  have idx: "unat (ptr - memory p) div unat (block_size p) = unat ?idx"
    by (simp add: unat_div)
  have md: "unat (ptr - memory p) mod unat (block_size p) = unat ((ptr - memory p) mod block_size p)"
    by (simp add: unat_mod)
  have nn: "0 < sint ?N \<Longrightarrow> nat (sint ?N) = unat ?N"
    using sint_pos_unat [of ?N] by linarith
  show "(let off = unat (ptr - memory p);
              idx = off div unat (block_size p);
              N = allocation_sizes p ! idx
          in off mod unat (block_size p) \<noteq> 0 \<or> unat (num_blocks p) \<le> idx \<or>
             idx < unat (num_blocks p) \<and>
               (N = 0 \<or> N = - 1 \<or> 0 < sint N \<and> unat (num_blocks p) < idx + nat (sint N)))
         \<longrightarrow> pool_free (Some p) ptr = Some (Some p)"
    unfolding Let_def idx md
  proof
    assume "unat ((ptr - memory p) mod block_size p) \<noteq> 0 \<or> unat (num_blocks p) \<le> unat ?idx \<or>
       unat ?idx < unat (num_blocks p) \<and>
         (?N = 0 \<or> ?N = - 1 \<or> 0 < sint ?N \<and> unat (num_blocks p) < unat ?idx + nat (sint ?N))"
    then have "(ptr - memory p) mod block_size p \<noteq> 0 \<or> num_blocks p \<le> ?idx \<or>
        sint ?N \<le> 0 \<or> unat (num_blocks p) < unat ?idx + unat ?N"
      using nn by (auto simp: word_le_nat_alt unat_eq_0)
    then show "pool_free (Some p) ptr = Some (Some p)"
      by (auto simp: pool_free_eq [OF assms] Let_def)
  qed
  show "\<exists>p'. pool_free (Some p) ptr = Some (Some p') \<and> pool_free (Some p') ptr = Some (Some p')"
  proof (cases "ptr = 0 \<or> (ptr - memory p) mod block_size p \<noteq> 0 \<or> num_blocks p \<le> ?idx \<or>
        sint ?N \<le> 0 \<or> unat (num_blocks p) < unat ?idx + unat ?N")
    case True
    then have "pool_free (Some p) ptr = Some (Some p)"
      by (auto simp: pool_free_eq [OF assms] Let_def)
    then show ?thesis by simp
  next
    case False
    then have first: "pool_free (Some p) ptr = Some (Some ?p')"
      by (simp add: pool_free_eq [OF assms] Let_def)
    have sh: "pool_shape ?p'" using assms by (rule pool_shape_fill)
    from False have inr: "unat ?idx < length ?a" and pos: "0 < unat ?N"
      using assms sint_pos_unat [of ?N] by (auto simp: pool_shape_def word_le_nat_alt unat_gt_0)
    then have "allocation_sizes ?p' ! unat ?idx = 0"
      by (simp add: nth_fill)
    then have "pool_free (Some ?p') ptr = Some (Some ?p')"
      by (simp add: pool_free_eq [OF sh] Let_def)
    with first show ?thesis by simp
  qed
qed

theorem pool_free_invalid_witness:
  "pool_shape pool_a \<and> pool_shape pool_b \<and>
   pool_free (Some pool_a) 4097 = Some (Some pool_a) \<and>
   pool_free (Some pool_a) 4160 = Some (Some pool_a) \<and>
   pool_free (Some pool_a) 4128 = Some (Some pool_a) \<and>
   pool_free (Some pool_a) 4112 = Some (Some pool_a) \<and>
   pool_free (Some pool_b) 4144 = Some (Some pool_b) \<and>
   pool_free (Some pool_a) 4096 = Some (Some pool_fresh) \<and>
   pool_free (Some pool_fresh) 4096 = Some (Some pool_fresh)"
proof (intro conjI)
  show a: "pool_shape pool_a"
    by (simp add: pool_shape_def pool_a_def)
  show b: "pool_shape pool_b"
    by (simp add: pool_shape_def pool_b_def)
  have f: "pool_shape pool_fresh"
    by (simp add: pool_shape_def pool_fresh_def)
  note noop_a = pool_free_invalid [OF a, THEN conjunct1, rule_format]
  note noop_b = pool_free_invalid [OF b, THEN conjunct1, rule_format]
  note noop_f = pool_free_invalid [OF f, THEN conjunct1, rule_format]
  show "pool_free (Some pool_a) 4097 = Some (Some pool_a)"
    by (rule noop_a) (simp add: pool_a_def)
  show "pool_free (Some pool_a) 4160 = Some (Some pool_a)"
    by (rule noop_a) (simp add: pool_a_def)
  show "pool_free (Some pool_a) 4128 = Some (Some pool_a)"
    by (rule noop_a) (simp add: pool_a_def)
  show "pool_free (Some pool_a) 4112 = Some (Some pool_a)"
    by (rule noop_a) (simp add: pool_a_def)
  show "pool_free (Some pool_b) 4144 = Some (Some pool_b)"
    by (rule noop_b) (simp add: pool_b_def)
  show "pool_free (Some pool_a) 4096 = Some (Some pool_fresh)"
    by (simp add: pool_free.simps pool_a_def pool_fresh_def rd_def wr_def store_loop.simps)
  show "pool_free (Some pool_fresh) 4096 = Some (Some pool_fresh)"
    by (rule noop_f) (simp add: pool_fresh_def)
qed

section \<open>Allocating and freeing\<close>

text \<open>
  C2. Take any pool that \<^verbatim>\<open>pool_init\<close> returns (so \<^verbatim>\<open>block_size > 0\<close> and
  \<^verbatim>\<open>num_blocks > 0\<close>) and any size for which \<^verbatim>\<open>pool_alloc\<close> on it returns a non-null address.
  Then \<^verbatim>\<open>pool_free\<close> of that address returns the pool \<^verbatim>\<open>pool_init\<close> had made:
  \<^verbatim>\<open>free_blocks\<close> is \<^verbatim>\<open>num_blocks\<close> again and every table entry is 0.
\<close>

theorem alloc_free_restores:
  assumes init: "pool_init struct_ok table_ok junk mem bs nb = Some (Some p0)"
    and alloc: "pool_alloc (Some p0) sz = Some (ptr, q)"
    and ptr: "ptr \<noteq> 0"
  shows "pool_free q ptr = Some (Some p0) \<and> free_blocks p0 = nb \<and>
     allocation_sizes p0 = replicate (unat nb) 0"
proof -
  let ?n = "num_blocks_needed p0 sz"
  let ?a = "allocation_sizes p0"
  from pool_init_shape [OF init]
  have sh: "pool_shape p0" and a: "?a = replicate (unat nb) 0" and fb: "free_blocks p0 = nb"
    and nbk: "num_blocks p0 = nb" and mem: "memory p0 = mem"
    by simp_all
  from sh have len: "length ?a = unat (num_blocks p0)" and nz: "num_blocks p0 \<noteq> 0"
    and m0: "memory p0 \<noteq> 0" and bz: "block_size p0 \<noteq> 0"
    and small: "unat (num_blocks p0) * 8 < 2 ^ 64"
    by (simp_all add: pool_shape_def)
  have pos: "0 < length ?a" using len nz by (simp add: unat_gt_0)
  from pool_alloc_cases [OF sh alloc] ptr obtain k where
    ok: "sz \<noteq> 0" "\<not> block_size p0 * free_blocks p0 < sz" and rf: "run_free ?a (unat ?n) k"
    by auto
  from rf have nle: "unat ?n \<le> unat nb"
    using a by (simp add: run_free_replicate)
  then have rf0: "run_free ?a (unat ?n) 0"
    using a by (simp add: run_free_replicate)
  have z0: "?a ! 0 = 0" using a pos by simp
  have "alloc_loop p0 ?n 0 = Some (marked p0 ?n 0)"
    using len pos z0 rf0 by (intro alloc_loop_found) simp_all
  with alloc ok have res: "ptr = memory p0" "q = Some (snd (marked p0 ?n 0))"
    by (simp_all add: pool_alloc.simps marked_def)
  let ?a1 = "fill (Suc 0) (unat ?n) (- 1) (?a[0 := ?n])"
  let ?p1 = "p0\<lparr>allocation_sizes := ?a1, free_blocks := free_blocks p0 - ?n\<rparr>"
  have p1: "snd (marked p0 ?n 0) = ?p1" by (simp add: marked_def)
  have sh1: "pool_shape ?p1" using sh by (simp add: pool_shape_def)
  have head: "?a1 ! 0 = ?n" using pos by (simp add: nth_fill)
  have free: "pool_free (Some ?p1) (memory p0) = Some (Some
       (if sint ?n \<le> 0 \<or> unat (num_blocks p0) < unat ?n then ?p1
        else ?p1\<lparr>allocation_sizes := fill 0 (unat ?n) 0 ?a1,
                   free_blocks := free_blocks ?p1 + ?n\<rparr>))"
    by (subst pool_free_eq [OF sh1]) (simp add: Let_def m0 nz head word_le_nat_alt unat_eq_0)
  have "pool_free (Some ?p1) (memory p0) = Some (Some p0)"
  proof (cases "?n = 0")
    case True
    moreover have "?a[0 := 0] = ?a"
      using z0 list_update_id [of ?a 0] by simp
    ultimately have "?a1 = ?a" by (simp add: fill_empty)
    then have "?p1 = p0" using True by simp
    with free True show ?thesis by simp
  next
    case False
    have "unat ?n < 2 ^ 63" using nle nbk small by simp
    with False have "0 < sint ?n" using small_sint_pos [of ?n] by blast
    then have "\<not> sint ?n \<le> 0" by simp
    moreover have "\<not> unat (num_blocks p0) < unat ?n" using nle nbk by simp
    moreover have "fill 0 (unat ?n) 0 ?a1 = ?a"
      using marked_fresh_freed [OF nle] a by simp
    ultimately show ?thesis using free by simp
  qed
  with res p1 fb a show ?thesis by simp
qed

theorem alloc_free_restores_witness:
  "pool_init True True (\<lambda>i. 7) 4096 16 4 = Some (Some pool_fresh) \<and>
   pool_alloc (Some pool_fresh) 20 = Some (4096, Some pool_a) \<and>
   (4096 :: addr) \<noteq> 0 \<and>
   pool_free (Some pool_a) 4096 = Some (Some pool_fresh) \<and>
   free_blocks pool_fresh = 4 \<and>
   allocation_sizes pool_fresh = replicate (unat (4 :: size_t)) 0"
proof -
  have i: "pool_init True True (\<lambda>i. 7) 4096 16 4 = Some (Some pool_fresh)"
    by (simp add: pool_init_def wr_def store_loop.simps upt_conv_Cons pool_fresh_def)
  have a: "pool_alloc (Some pool_fresh) 20 = Some (4096, Some pool_a)"
    by (simp add: pool_alloc.simps alloc_loop.simps alloc_step_def num_blocks_needed_def
        rd_def wr_def check_loop.simps store_loop.simps pool_fresh_def pool_a_def)
  have n: "(4096 :: addr) \<noteq> 0" by simp
  from alloc_free_restores [OF i a n] i a n show ?thesis by simp
qed

section \<open>Allocation\<close>

subsection \<open>The number of blocks needed\<close>

text \<open>
  Line 62 computes the ceiling of \<open>size / block_size\<close> as long as
  \<open>size + block_size - 1\<close> does not exceed \<^verbatim>\<open>SIZE_MAX\<close>.
\<close>

lemma needed_exact:
  fixes sz bs :: "64 word"
  assumes bs: "bs \<noteq> 0" and fit: "unat sz + unat bs \<le> 2 ^ 64"
  shows "unat ((sz + bs - 1) div bs) = (unat sz + unat bs - 1) div unat bs"
proof -
  have b1: "unat (bs - 1) = unat bs - 1" using bs by (rule unat_minus_one)
  have pos: "0 < unat bs" using bs by (simp add: unat_gt_0)
  with fit b1 have "unat sz + unat (bs - 1) < 2 ^ 64" by simp
  then have "unat (sz + (bs - 1)) = unat sz + unat (bs - 1)" by (rule unat_add_exact)
  also have "\<dots> = unat sz + unat bs - 1" using b1 pos by simp
  finally have "unat (sz + (bs - 1)) = unat sz + unat bs - 1" .
  moreover have e: "sz + bs - 1 = sz + (bs - 1)" by simp
  ultimately have "unat (sz + bs - 1) = unat sz + unat bs - 1"
    by (simp only: e)
  then show ?thesis by (simp add: unat_div)
qed

text \<open>Beyond that the sum wraps and the quotient is 0.\<close>

lemma needed_wrapped:
  fixes sz bs :: "64 word"
  assumes sz: "sz \<noteq> 0" and over: "2 ^ 64 < unat sz + unat bs"
  shows "(sz + bs - 1) div bs = 0"
proof -
  have bs: "bs \<noteq> 0"
  proof
    assume "bs = 0"
    with over unat_bound [of sz] show False by simp
  qed
  have b1: "unat (bs - 1) = unat bs - 1" using bs by (rule unat_minus_one)
  have pos: "0 < unat bs" using bs by (simp add: unat_gt_0)
  have e: "sz + bs - 1 = sz + (bs - 1)" by simp
  have "unat (sz + (bs - 1)) = (unat sz + unat (bs - 1)) mod 2 ^ 64"
    by (simp only: unat_word_ariths) simp
  then have "unat (sz + bs - 1) = (unat sz + unat (bs - 1)) mod 2 ^ 64"
    by (simp only: e)
  also have "\<dots> = (unat sz + unat bs - 1) mod 2 ^ 64"
    using b1 pos by simp
  also have "\<dots> = unat sz + unat bs - 1 - 2 ^ 64"
  proof -
    have "2 ^ 64 \<le> unat sz + unat bs - 1" using over by simp
    moreover have "unat sz + unat bs - 1 < 2 * 2 ^ 64"
      using unat_bound [of sz] unat_bound [of bs] by simp
    ultimately show ?thesis
      by (metis (no_types) le_add_diff_inverse mod_add_self1 mod_less add_less_cancel_left mult_2)
  qed
  also have "\<dots> < unat bs"
    using unat_bound [of sz] over by simp
  finally have "unat (sz + bs - 1) div unat bs = 0" by simp
  then have "unat ((sz + bs - 1) div bs) = 0" by (simp add: unat_div)
  then show ?thesis by (simp add: unat_eq_0)
qed

lemma needed_zero_wraps:
  fixes sz bs :: "64 word"
  assumes "sz \<noteq> 0" and "bs \<noteq> 0" and "(sz + bs - 1) div bs = 0"
  shows "2 ^ 64 < unat sz + unat bs"
proof (rule ccontr)
  assume "\<not> 2 ^ 64 < unat sz + unat bs"
  then have "unat sz + unat bs \<le> 2 ^ 64" by simp
  from needed_exact [OF assms(2) this] assms(3)
  have "(unat sz + unat bs - 1) div unat bs = 0" by simp
  moreover have "0 < unat bs" "0 < unat sz" using assms by (simp_all add: unat_gt_0)
  ultimately show False by (simp add: div_eq_0_iff)
qed

subsection \<open>First fit\<close>

lemma count_list_full: "count_list xs v = length xs \<Longrightarrow> \<forall>x \<in> set xs. x = v"
proof (induction xs)
  case Nil
  then show ?case by simp
next
  case (Cons x xs)
  have le: "count_list xs v \<le> length xs" by (rule count_list_le_length)
  show ?case
  proof (cases "x = v")
    case True
    with Cons show ?thesis by simp
  next
    case False
    with Cons.prems le show ?thesis by simp
  qed
qed

lemma pool_valid_capacity:
  assumes "pool_valid p"
  shows "unat (block_size p * free_blocks p) = unat (block_size p) * unat (free_blocks p)"
proof -
  from assms have sh: "pool_shape p" and fb: "unat (free_blocks p) = count_list (allocation_sizes p) 0"
    and rf: "region_fits p"
    by (simp_all add: pool_valid_def pool_inv_def)
  have "unat (free_blocks p) \<le> unat (num_blocks p)"
    using fb count_list_le_length [of "allocation_sizes p" 0] sh by (simp add: pool_shape_def)
  then have "unat (block_size p) * unat (free_blocks p) \<le> unat (block_size p) * unat (num_blocks p)"
    by (rule mult_le_mono2)
  moreover have "0 < unat (memory p)" using sh by (simp add: pool_shape_def unat_gt_0)
  moreover have "unat (memory p) + unat (block_size p) * unat (num_blocks p) \<le> 2 ^ 64"
    using rf by (simp only: region_fits_def)
  ultimately have "unat (block_size p) * unat (free_blocks p) < 2 ^ 64" by linarith
  then show ?thesis by (rule unat_mult_exact)
qed

text \<open>
  On a valid pool a request that passes the capacity test can only have its block count
  wrapped to 0 when every block is free.
\<close>

lemma wrapped_all_free:
  assumes valid: "pool_valid p" and sz: "sz \<noteq> 0"
    and cap: "unat sz \<le> unat (block_size p) * unat (free_blocks p)"
    and zero: "num_blocks_needed p sz = 0"
  shows "\<forall>x \<in> set (allocation_sizes p). x = 0"
proof -
  from valid have sh: "pool_shape p" and fb: "unat (free_blocks p) = count_list (allocation_sizes p) 0"
    and rf: "region_fits p"
    by (simp_all add: pool_valid_def pool_inv_def)
  from sh have bs: "block_size p \<noteq> 0" and len: "length (allocation_sizes p) = unat (num_blocks p)"
    by (simp_all add: pool_shape_def)
  have "2 ^ 64 < unat sz + unat (block_size p)"
    using sz bs zero by (intro needed_zero_wraps) (simp_all add: num_blocks_needed_def)
  also have "\<dots> \<le> unat (block_size p) * unat (free_blocks p) + unat (block_size p)"
    using cap by simp
  also have "\<dots> = unat (block_size p) * Suc (unat (free_blocks p))" by simp
  finally have big: "2 ^ 64 < unat (block_size p) * Suc (unat (free_blocks p))" .
  have "unat (block_size p) * unat (num_blocks p) \<le> 2 ^ 64"
    using rf by (simp add: region_fits_def)
  from this big have "unat (block_size p) * unat (num_blocks p)
      < unat (block_size p) * Suc (unat (free_blocks p))"
    by (rule le_less_trans)
  then have "unat (num_blocks p) < Suc (unat (free_blocks p))"
    by (simp only: mult_less_cancel1)
  then have "length (allocation_sizes p) \<le> count_list (allocation_sizes p) 0"
    using fb len by simp
  with count_list_le_length [of "allocation_sizes p" 0]
  have "count_list (allocation_sizes p) 0 = length (allocation_sizes p)" by simp
  then show ?thesis by (rule count_list_full)
qed

lemmas eval_pool =
  pool_alloc.simps pool_free.simps alloc_loop.simps alloc_step_def num_blocks_needed_def
  rd_def wr_def check_loop.simps store_loop.simps

text \<open>
  C3. On a valid pool, for a size \<open>0 < size \<le> block_size * free_blocks\<close> (the product over
  the natural numbers) and with \<open>n\<close> the block count that line 62 computes: if some run of
  \<open>n\<close> free blocks exists, \<^verbatim>\<open>pool_alloc\<close> takes the smallest index \<open>i\<close> with entries
  \<open>i .. i+n-1\<close> all 0 and \<open>i + n \<le> num_blocks\<close>, writes \<open>n\<close> at \<open>i\<close> and \<open>-1\<close> at
  \<open>i+1 .. i+n-1\<close>, leaves every other entry, takes \<open>n\<close> from \<^verbatim>\<open>free_blocks\<close> and returns the
  address \<open>memory + i * block_size\<close>, a sum that does not wrap. The count \<open>n\<close> is the ceiling
  of \<open>size / block_size\<close> whenever \<open>size + block_size - 1\<close> does not exceed \<^verbatim>\<open>SIZE_MAX\<close>.
\<close>

theorem pool_alloc_first_fit:
  assumes valid: "pool_valid p" and sz: "sz \<noteq> 0"
    and cap: "unat sz \<le> unat (block_size p) * unat (free_blocks p)"
    and ex: "\<exists>i. run_free (allocation_sizes p) (unat (num_blocks_needed p sz)) i"
  shows "(\<exists>i p'.
     run_free (allocation_sizes p) (unat (num_blocks_needed p sz)) i \<and>
     (\<forall>i' < i. \<not> run_free (allocation_sizes p) (unat (num_blocks_needed p sz)) i') \<and>
     pool_alloc (Some p) sz = Some (memory p + of_nat i * block_size p, Some p') \<and>
     unat (memory p + of_nat i * block_size p) = unat (memory p) + i * unat (block_size p) \<and>
     length (allocation_sizes p') = length (allocation_sizes p) \<and>
     (\<forall>j < length (allocation_sizes p).
        allocation_sizes p' ! j =
          (if j = i then num_blocks_needed p sz
           else if i < j \<and> j < i + unat (num_blocks_needed p sz) then - 1
           else allocation_sizes p ! j)) \<and>
     free_blocks p' = free_blocks p - num_blocks_needed p sz \<and>
     unat (free_blocks p') + unat (num_blocks_needed p sz) = unat (free_blocks p) \<and>
     memory p' = memory p \<and> block_size p' = block_size p \<and> num_blocks p' = num_blocks p) \<and>
   (unat sz + unat (block_size p) \<le> 2 ^ 64 \<longrightarrow>
      unat (num_blocks_needed p sz) = (unat sz + unat (block_size p) - 1) div unat (block_size p))"
proof -
  let ?a = "allocation_sizes p"
  let ?n = "num_blocks_needed p sz"
  define i where "i = (LEAST i. run_free ?a (unat ?n) i)"
  from ex have run: "run_free ?a (unat ?n) i"
    unfolding i_def by (rule LeastI_ex)
  have first: "\<And>i'. i' < i \<Longrightarrow> \<not> run_free ?a (unat ?n) i'"
    unfolding i_def by (rule not_less_Least)
  from valid have inv: "pool_inv p" and rf: "region_fits p"
    by (simp_all add: pool_valid_def)
  from inv have sh: "pool_shape p" and fb: "unat (free_blocks p) = count_list ?a 0"
    by (simp_all add: pool_inv_def)
  from sh have len: "length ?a = unat (num_blocks p)" and bs: "block_size p \<noteq> 0"
    and nz: "num_blocks p \<noteq> 0"
    by (simp_all add: pool_shape_def)
  have pos: "0 < length ?a" using len nz by (simp add: unat_gt_0)
  have fit: "i < length ?a \<and> ?a ! i = 0"
  proof (cases "?n = 0")
    case True
    then have "run_free ?a (unat ?n) 0" by (simp add: run_free_def)
    with first have "i = 0" by (cases "i = 0") auto
    moreover have "?a ! 0 = 0"
      using wrapped_all_free [OF valid sz cap True] pos by simp
    ultimately show ?thesis using pos by simp
  next
    case False
    then have "0 < unat ?n" by (simp add: unat_gt_0)
    with run show ?thesis by (simp add: run_free_def)
  qed
  have "\<forall>k' \<in> {unat (0 :: 64 word) ..< i}. \<not> (?a ! k' = 0 \<and> run_free ?a (unat ?n) k')"
    using first by simp
  with len fit run have loop: "alloc_loop p ?n 0 = Some (marked p ?n i)"
    by (intro alloc_loop_found) simp_all
  have "\<not> block_size p * free_blocks p < sz"
    using cap pool_valid_capacity [OF valid] by (simp add: word_less_nat_alt)
  with sz loop have res: "pool_alloc (Some p) sz
      = Some (fst (marked p ?n i), Some (snd (marked p ?n i)))"
    by (simp add: pool_alloc.simps case_prod_beta)
  let ?p' = "snd (marked p ?n i)"
  have addr: "fst (marked p ?n i) = memory p + of_nat i * block_size p"
    by (simp add: marked_def)
  have exact: "unat (memory p + of_nat i * block_size p) = unat (memory p) + i * unat (block_size p)"
    using rf bs fit len by (intro block_addr) simp_all
  have tab: "allocation_sizes ?p' = fill (Suc i) (i + unat ?n) (- 1) (?a[i := ?n])"
    by (simp add: marked_def)
  have entries: "\<forall>j < length ?a. allocation_sizes ?p' ! j =
          (if j = i then ?n else if i < j \<and> j < i + unat ?n then - 1 else ?a ! j)"
    unfolding tab by (auto simp: nth_fill nth_list_update)
  have inv': "pool_inv ?p'"
    using inv fit run by (intro pool_inv_marked) simp_all
  have cnt: "unat (free_blocks ?p') + unat ?n = unat (free_blocks p)"
  proof (cases "?n = 0")
    case True
    then show ?thesis by (simp add: marked_def)
  next
    case False
    then have "0 < unat ?n" by (simp add: unat_gt_0)
    with run False have "count_list (fill (Suc i) (i + unat ?n) (- 1) (?a[i := ?n])) 0 + unat ?n
        = count_list ?a 0"
      by (intro count_marked)
    with inv' tab fb show ?thesis by (simp add: pool_inv_def)
  qed
  have "run_free ?a (unat ?n) i \<and>
     (\<forall>i' < i. \<not> run_free ?a (unat ?n) i') \<and>
     pool_alloc (Some p) sz = Some (memory p + of_nat i * block_size p, Some ?p') \<and>
     unat (memory p + of_nat i * block_size p) = unat (memory p) + i * unat (block_size p) \<and>
     length (allocation_sizes ?p') = length ?a \<and>
     (\<forall>j < length ?a. allocation_sizes ?p' ! j =
          (if j = i then ?n else if i < j \<and> j < i + unat ?n then - 1 else ?a ! j)) \<and>
     free_blocks ?p' = free_blocks p - ?n \<and>
     unat (free_blocks ?p') + unat ?n = unat (free_blocks p) \<and>
     memory ?p' = memory p \<and> block_size ?p' = block_size p \<and> num_blocks ?p' = num_blocks p"
  proof (intro conjI)
    show "run_free ?a (unat ?n) i" by (rule run)
    show "\<forall>i' < i. \<not> run_free ?a (unat ?n) i'" using first by blast
    show "pool_alloc (Some p) sz = Some (memory p + of_nat i * block_size p, Some ?p')"
      using res addr by simp
    show "unat (memory p + of_nat i * block_size p) = unat (memory p) + i * unat (block_size p)"
      by (rule exact)
    show "length (allocation_sizes ?p') = length ?a" by (simp add: tab)
    show "\<forall>j < length ?a. allocation_sizes ?p' ! j =
          (if j = i then ?n else if i < j \<and> j < i + unat ?n then - 1 else ?a ! j)"
      by (rule entries)
    show "free_blocks ?p' = free_blocks p - ?n" by (simp add: marked_def)
    show "unat (free_blocks ?p') + unat ?n = unat (free_blocks p)" by (rule cnt)
    show "memory ?p' = memory p" by (simp add: marked_def)
    show "block_size ?p' = block_size p" by (simp add: marked_def)
    show "num_blocks ?p' = num_blocks p" by (simp add: marked_def)
  qed
  then have found: "\<exists>i p'.
     run_free ?a (unat ?n) i \<and>
     (\<forall>i' < i. \<not> run_free ?a (unat ?n) i') \<and>
     pool_alloc (Some p) sz = Some (memory p + of_nat i * block_size p, Some p') \<and>
     unat (memory p + of_nat i * block_size p) = unat (memory p) + i * unat (block_size p) \<and>
     length (allocation_sizes p') = length ?a \<and>
     (\<forall>j < length ?a. allocation_sizes p' ! j =
          (if j = i then ?n else if i < j \<and> j < i + unat ?n then - 1 else ?a ! j)) \<and>
     free_blocks p' = free_blocks p - ?n \<and>
     unat (free_blocks p') + unat ?n = unat (free_blocks p) \<and>
     memory p' = memory p \<and> block_size p' = block_size p \<and> num_blocks p' = num_blocks p"
    by blast
  have ceil: "unat sz + unat (block_size p) \<le> 2 ^ 64 \<longrightarrow>
      unat ?n = (unat sz + unat (block_size p) - 1) div unat (block_size p)"
    unfolding num_blocks_needed_def using bs by (blast intro: needed_exact)
  from found ceil show ?thesis by (rule conjI)
qed

theorem pool_alloc_first_fit_witness:
  "pool_valid pool_d \<and> (20 :: size_t) \<noteq> 0 \<and>
   unat (20 :: size_t) \<le> unat (block_size pool_d) * unat (free_blocks pool_d) \<and>
   unat (num_blocks_needed pool_d 20) = 2 \<and>
   run_free (allocation_sizes pool_d) 2 2 \<and>
   \<not> run_free (allocation_sizes pool_d) 2 0 \<and>
   \<not> run_free (allocation_sizes pool_d) 2 1 \<and>
   pool_alloc (Some pool_d) 20 = Some (4128, Some pool_d') \<and>
   unat (4128 :: addr) = unat (memory pool_d) + 2 * unat (block_size pool_d) \<and>
   unat (20 :: size_t) + unat (block_size pool_d) \<le> 2 ^ 64 \<and>
   (unat (20 :: size_t) + unat (block_size pool_d) - 1) div unat (block_size pool_d) = 2"
proof -
  have ti: "table_inv (allocation_sizes pool_d)"
  proof (rule table_invI)
    fix i assume "i < length (allocation_sizes pool_d)"
    then have i: "i = 0 \<or> i = 1 \<or> i = 2 \<or> i = 3" by (auto simp: pool_d_def)
    then show "allocation_sizes pool_d ! i = 0 \<or> allocation_sizes pool_d ! i = - 1 \<or>
        0 < sint (allocation_sizes pool_d ! i)"
      by (auto simp: pool_d_def)
    assume p: "0 < sint (allocation_sizes pool_d ! i)"
    with i have i1: "i = 1" by (auto simp: pool_d_def)
    then show "i + nat (sint (allocation_sizes pool_d ! i)) \<le> length (allocation_sizes pool_d)"
      by (simp add: pool_d_def)
    fix j assume "i < j" "j < i + nat (sint (allocation_sizes pool_d ! i))"
    with i1 show "allocation_sizes pool_d ! j = - 1" by (simp add: pool_d_def)
  qed
  have v: "pool_valid pool_d"
    using ti by (simp add: pool_valid_def pool_inv_def pool_shape_def region_fits_def pool_d_def)
  have s: "(20 :: size_t) \<noteq> 0" by simp
  have c: "unat (20 :: size_t) \<le> unat (block_size pool_d) * unat (free_blocks pool_d)"
    by (simp add: pool_d_def)
  have n: "unat (num_blocks_needed pool_d 20) = 2"
    by (simp add: num_blocks_needed_def pool_d_def)
  have r2: "run_free (allocation_sizes pool_d) 2 2"
    by (auto simp: run_free_def pool_d_def nth_Cons' )
  have r0: "\<not> run_free (allocation_sizes pool_d) 2 0"
    by (auto simp: run_free_def pool_d_def intro!: bexI [of _ 1])
  have r1: "\<not> run_free (allocation_sizes pool_d) 2 1"
    by (auto simp: run_free_def pool_d_def intro!: bexI [of _ 1])
  have ex: "\<exists>i. run_free (allocation_sizes pool_d) (unat (num_blocks_needed pool_d 20)) i"
    using r2 n by auto
  from pool_alloc_first_fit [OF v s c ex, THEN conjunct1] obtain i p' where
    run: "run_free (allocation_sizes pool_d) 2 i"
    and first: "\<forall>i' < i. \<not> run_free (allocation_sizes pool_d) 2 i'"
    and res: "pool_alloc (Some pool_d) 20 = Some (memory pool_d + of_nat i * block_size pool_d, Some p')"
    and addr: "unat (memory pool_d + of_nat i * block_size pool_d)
        = unat (memory pool_d) + i * unat (block_size pool_d)"
    unfolding n by blast
  have "i = 2"
  proof -
    from first r2 have "\<not> 2 < i" by blast
    moreover have "i \<noteq> 0"
    proof
      assume "i = 0"
      with run r0 show False by simp
    qed
    moreover have "i \<noteq> 1"
    proof
      assume "i = 1"
      with run r1 show False by simp
    qed
    ultimately show ?thesis by simp
  qed
  have ev: "pool_alloc (Some pool_d) 20 = Some (4128, Some pool_d')"
    by (simp add: eval_pool pool_d_def pool_d'_def)
  from res ev \<open>i = 2\<close> have "memory pool_d + 2 * block_size pool_d = 4128" by simp
  with addr \<open>i = 2\<close> have a: "unat (4128 :: addr) = unat (memory pool_d) + 2 * unat (block_size pool_d)"
    by simp
  have nw: "unat (20 :: size_t) + unat (block_size pool_d) \<le> 2 ^ 64"
    by (simp add: pool_d_def)
  from pool_alloc_first_fit [OF v s c ex, THEN conjunct2] nw n
  have cl: "(unat (20 :: size_t) + unat (block_size pool_d) - 1) div unat (block_size pool_d) = 2"
    by simp
  from v s c n r2 r0 r1 ev a nw cl show ?thesis by blast
qed

subsection \<open>Rounding up\<close>

text \<open>
  As long as \<open>size + block_size - 1\<close> does not exceed \<^verbatim>\<open>SIZE_MAX\<close>, a successful
  \<^verbatim>\<open>pool_alloc\<close> reserves the ceiling of \<open>size / block_size\<close> blocks: that number is
  written at the head and taken from \<^verbatim>\<open>free_blocks\<close>.
\<close>

lemma pool_alloc_reserves_ceiling:
  assumes sh: "pool_shape p" and alloc: "pool_alloc (Some p) sz = Some (ptr, Some p')"
    and ptr: "ptr \<noteq> 0" and fit: "unat sz + unat (block_size p) \<le> 2 ^ 64"
  shows "\<exists>k. k < length (allocation_sizes p) \<and> ptr = memory p + of_nat k * block_size p \<and>
     allocation_sizes p' ! k = num_blocks_needed p sz \<and>
     free_blocks p' = free_blocks p - num_blocks_needed p sz \<and>
     unat (num_blocks_needed p sz) = (unat sz + unat (block_size p) - 1) div unat (block_size p)"
proof -
  from sh have bs: "block_size p \<noteq> 0" by (simp add: pool_shape_def)
  have n: "unat (num_blocks_needed p sz) = (unat sz + unat (block_size p) - 1) div unat (block_size p)"
    unfolding num_blocks_needed_def using bs fit by (rule needed_exact)
  from pool_alloc_cases [OF sh alloc] ptr obtain k where
    k: "k < length (allocation_sizes p)"
    and r: "(ptr, Some p') = (fst (marked p (num_blocks_needed p sz) k),
                               Some (snd (marked p (num_blocks_needed p sz) k)))"
    by auto
  from r have "ptr = memory p + of_nat k * block_size p"
    and "free_blocks p' = free_blocks p - num_blocks_needed p sz"
    and "allocation_sizes p' = fill (Suc k) (k + unat (num_blocks_needed p sz)) (- 1)
           ((allocation_sizes p)[k := num_blocks_needed p sz])"
    by (simp_all add: marked_def)
  moreover from this(3) k have "allocation_sizes p' ! k = num_blocks_needed p sz"
    by (simp add: nth_fill)
  ultimately show ?thesis using k n by blast
qed

text \<open>
  C5. A successful \<^verbatim>\<open>pool_alloc\<close> is to reserve exactly the ceiling of
  \<open>size / block_size\<close> blocks, never fewer: that number at the head and that much less in
  \<^verbatim>\<open>free_blocks\<close>. The code departs from it where the sum of line 62 wraps. Take a pool of
  one block of \<open>2^63 + 1\<close> bytes, as \<^verbatim>\<open>pool_init\<close> returns it, and a request of
  \<open>2^63 + 1\<close> bytes, for which the ceiling is 1: the block count comes out as 0, and the
  call returns the address of block 0 while the table and \<^verbatim>\<open>free_blocks\<close> stay as they
  were. No block is reserved.
\<close>

theorem pool_alloc_rounding_wraps:
  "pool_init True True (\<lambda>i. 0) 4096 9223372036854775809 1 = Some (Some pool_huge) \<and>
   pool_shape pool_huge \<and> region_fits pool_huge \<and>
   (unat (9223372036854775809 :: size_t) + unat (block_size pool_huge) - 1)
      div unat (block_size pool_huge) = 1 \<and>
   num_blocks_needed pool_huge 9223372036854775809 = 0 \<and>
   pool_alloc (Some pool_huge) 9223372036854775809 = Some (4096, Some pool_huge)"
proof (intro conjI)
  show "pool_init True True (\<lambda>i. 0) 4096 9223372036854775809 1 = Some (Some pool_huge)"
    by (simp add: pool_init_def wr_def store_loop.simps upt_conv_Cons pool_huge_def)
  show "pool_shape pool_huge"
    by (simp add: pool_shape_def pool_huge_def)
  show "region_fits pool_huge"
    by (simp add: region_fits_def pool_huge_def)
  show "(unat (9223372036854775809 :: size_t) + unat (block_size pool_huge) - 1)
      div unat (block_size pool_huge) = 1"
    by (simp add: pool_huge_def)
  show "num_blocks_needed pool_huge 9223372036854775809 = 0"
    by (simp add: num_blocks_needed_def pool_huge_def)
  show "pool_alloc (Some pool_huge) 9223372036854775809 = Some (4096, Some pool_huge)"
    by (simp add: eval_pool pool_huge_def)
qed

subsection \<open>Fragmentation\<close>

text \<open>
  C9. A reachable state in which \<^verbatim>\<open>pool_alloc\<close> fails although the free blocks together
  would hold the request: three blocks of 16 bytes, each allocated by a call of its own;
  the first and the third are freed, the table is \<open>[0, 1, 0]\<close> and \<^verbatim>\<open>free_blocks = 2\<close>. A
  request of 32 bytes passes the capacity test (\<open>32 \<le> 16 * 2\<close>) and needs two blocks; no
  index starts two adjacent free blocks, and the call returns \<^verbatim>\<open>NULL\<close>, the pool unchanged.
\<close>

theorem fragmentation_failure:
  "reachable pool_frag \<and>
   allocation_sizes pool_frag = [0, 1, 0] \<and>
   (\<nexists>i. i + 2 \<le> length (allocation_sizes pool_frag) \<and>
        allocation_sizes pool_frag ! i = 0 \<and> allocation_sizes pool_frag ! (i + 1) = 0) \<and>
   unat (32 :: size_t) \<le> unat (block_size pool_frag) * unat (free_blocks pool_frag) \<and>
   \<not> block_size pool_frag * free_blocks pool_frag < 32 \<and>
   unat (num_blocks_needed pool_frag 32) = 2 \<and>
   pool_alloc (Some pool_frag) 32 = Some (0, Some pool_frag)"
proof (intro conjI)
  let ?p0 = "\<lparr>memory = 4096, block_size = 16, num_blocks = 3, free_blocks = 3,
              allocation_sizes = [0, 0, 0]\<rparr> :: mem_pool"
  let ?p1 = "\<lparr>memory = 4096, block_size = 16, num_blocks = 3, free_blocks = 2,
              allocation_sizes = [1, 0, 0]\<rparr> :: mem_pool"
  let ?p2 = "\<lparr>memory = 4096, block_size = 16, num_blocks = 3, free_blocks = 1,
              allocation_sizes = [1, 1, 0]\<rparr> :: mem_pool"
  let ?p3 = "\<lparr>memory = 4096, block_size = 16, num_blocks = 3, free_blocks = 0,
              allocation_sizes = [1, 1, 1]\<rparr> :: mem_pool"
  let ?p4 = "\<lparr>memory = 4096, block_size = 16, num_blocks = 3, free_blocks = 1,
              allocation_sizes = [0, 1, 1]\<rparr> :: mem_pool"
  have i: "pool_init True True (\<lambda>i. 0) 4096 16 3 = Some (Some ?p0)"
    by (simp add: pool_init_def wr_def store_loop.simps upt_conv_Cons)
  have a1: "pool_alloc (Some ?p0) 16 = Some (4096, Some ?p1)"
    by (simp add: eval_pool)
  have a2: "pool_alloc (Some ?p1) 16 = Some (4112, Some ?p2)"
    by (simp add: eval_pool)
  have a3: "pool_alloc (Some ?p2) 16 = Some (4128, Some ?p3)"
    by (simp add: eval_pool)
  have f1: "pool_free (Some ?p3) 4096 = Some (Some ?p4)"
    by (simp add: eval_pool)
  have f3: "pool_free (Some ?p4) 4128 = Some (Some pool_frag)"
    by (simp add: eval_pool pool_frag_def)
  show "reachable pool_frag"
    by (rule reach_free [OF reach_free [OF reach_alloc [OF reach_alloc [OF reach_alloc
          [OF reach_init [OF i] a1] a2] a3] f1] f3])
  show "allocation_sizes pool_frag = [0, 1, 0]"
    by (simp add: pool_frag_def)
  show "\<nexists>i. i + 2 \<le> length (allocation_sizes pool_frag) \<and>
        allocation_sizes pool_frag ! i = 0 \<and> allocation_sizes pool_frag ! (i + 1) = 0"
  proof
    assume "\<exists>i. i + 2 \<le> length (allocation_sizes pool_frag) \<and>
        allocation_sizes pool_frag ! i = 0 \<and> allocation_sizes pool_frag ! (i + 1) = 0"
    then obtain i where i: "i + 2 \<le> 3" and z: "allocation_sizes pool_frag ! i = 0"
        "allocation_sizes pool_frag ! (i + 1) = 0"
      by (auto simp: pool_frag_def)
    from i have "i = 0 \<or> i = 1" by auto
    with z show False by (auto simp: pool_frag_def)
  qed
  show "unat (32 :: size_t) \<le> unat (block_size pool_frag) * unat (free_blocks pool_frag)"
    by (simp add: pool_frag_def)
  show "\<not> block_size pool_frag * free_blocks pool_frag < 32"
    by (simp add: pool_frag_def)
  show "unat (num_blocks_needed pool_frag 32) = 2"
    by (simp add: num_blocks_needed_def pool_frag_def)
  show "pool_alloc (Some pool_frag) 32 = Some (0, Some pool_frag)"
    by (simp add: eval_pool pool_frag_def)
qed

section \<open>The calls return\<close>

text \<open>
  On a pool that satisfies the invariant, \<^verbatim>\<open>pool_alloc\<close> has a defined result for every
  size: the search loop ends and no access leaves the table. So has \<^verbatim>\<open>pool_free\<close> for
  every address, on any pool of the right shape.
\<close>

lemma pool_free_returns:
  "pool_shape p \<Longrightarrow> \<exists>p'. pool_free (Some p) ptr = Some (Some p')"
  by (simp add: pool_free_eq)

lemma pool_alloc_returns:
  assumes inv: "pool_inv p"
  shows "\<exists>ptr p'. pool_alloc (Some p) sz = Some (ptr, Some p')"
proof (cases "sz = 0 \<or> block_size p * free_blocks p < sz")
  case True
  then show ?thesis by (auto simp: pool_alloc.simps)
next
  case False
  let ?a = "allocation_sizes p"
  let ?n = "num_blocks_needed p sz"
  let ?fit = "\<lambda>k. k < length ?a \<and> ?a ! k = 0 \<and> run_free ?a (unat ?n) k"
  from inv have sh: "pool_shape p" and fb: "unat (free_blocks p) = count_list ?a 0"
    by (simp_all add: pool_inv_def)
  from sh have len: "length ?a = unat (num_blocks p)" by (simp add: pool_shape_def)
  have small: "length ?a < 2 ^ 63" using pool_shape_small [OF sh] by simp
  have "\<exists>r. alloc_loop p ?n 0 = Some r"
  proof (cases "\<exists>k. ?fit k")
    case True
    define k where "k = (LEAST k. ?fit k)"
    from True have fit: "?fit k" unfolding k_def by (rule LeastI_ex)
    have first: "\<And>k'. k' < k \<Longrightarrow> \<not> ?fit k'"
      unfolding k_def by (rule not_less_Least)
    have "\<forall>k' \<in> {unat (0 :: 64 word) ..< k}. \<not> (?a ! k' = 0 \<and> run_free ?a (unat ?n) k')"
    proof
      fix k' assume "k' \<in> {unat (0 :: 64 word) ..< k}"
      then have "k' < k" by simp
      with first [OF this] fit show "\<not> (?a ! k' = 0 \<and> run_free ?a (unat ?n) k')" by simp
    qed
    with len fit have "alloc_loop p ?n 0 = Some (marked p ?n k)"
      by (intro alloc_loop_found) simp_all
    then show ?thesis by blast
  next
    case none: False
    have nz: "?n \<noteq> 0"
    proof
      assume z: "?n = 0"
      from False have "block_size p * free_blocks p \<noteq> 0"
        by (auto simp: word_less_nat_alt unat_gt_0 unat_eq_0)
      then have "free_blocks p \<noteq> 0" by auto
      then have "0 < unat (free_blocks p)" by (simp add: unat_gt_0)
      then have "0 < count_list ?a 0" by (simp only: fb)
      then have "0 \<in> set ?a" by (metis count_list_none less_numeral_extra(3))
      then obtain k where k: "k < length ?a" "?a ! k = 0" by (auto simp: in_set_conv_nth)
      then have "?fit k" using z by (simp add: run_free_def)
      with none show False by blast
    qed
    then have pos: "0 < unat ?n" by (simp add: unat_gt_0)
    have no_run: "\<forall>k \<ge> unat (0 :: 64 word). \<not> run_free ?a (unat ?n) k"
    proof (intro allI impI notI)
      fix k assume r: "run_free ?a (unat ?n) k"
      with pos have "?fit k" by (simp add: run_free_def)
      with none show False by blast
    qed
    show ?thesis
    proof (cases "unat ?n \<le> length ?a")
      case True
      with len small nz no_run have "alloc_loop p ?n 0 = Some (0, p)"
        by (intro alloc_loop_not_found) simp_all
      then show ?thesis by blast
    next
      case False
      then have "\<not> 0 + ?n \<le> num_blocks p" using len by (simp add: word_le_nat_alt)
      then have "alloc_loop p ?n 0 = Some (0, p)"
        by (subst alloc_loop.simps) simp
      then show ?thesis by blast
    qed
  qed
  with False show ?thesis
    by (auto simp: pool_alloc.simps)
qed

end
